theory Spec2Isabelle
  imports Main "HOL-Library.Sublist"
begin

section \<open>The build server (build-server-go/main.go)\<close>

text \<open>
  The build server talks to three collaborators: the Redis client it publishes with, the
  \<^verbatim>\<open>log\<close> package writing to the container's own output, and the S3 client. What the
  program has done to them is collected in one record of effects.

  A call of \<^verbatim>\<open>Publish(...).Err()\<close> is synchronous: it returns when Redis has answered or
  the client has given up, and the goroutine that called it goes on only then. It either
  yields \<^verbatim>\<open>nil\<close>, and then Redis has answered with the number of subscribers that
  received the message (possibly zero), or it yields an error. Which of the two happens,
  and how long the call takes, is decided by the environment: the \<open>publisher\<close> field of
  the server gives, for the k-th call, the reply and the time the call took in
  milliseconds.

  In the effects, \<open>accepted\<close> lists the events the broker took, as pairs of channel and
  payload in the order of their publication; \<open>stdlog\<close> lists the lines written with the
  \<^verbatim>\<open>log\<close> package; \<open>s3_objects\<close> lists the objects put to S3 as bucket, key and content
  type; \<open>publish_calls\<close> counts the calls of \<^verbatim>\<open>Publish\<close>; \<open>waited\<close> is the time the
  goroutines of the build have spent inside calls of \<^verbatim>\<open>Publish\<close>.
\<close>

datatype publish_reply = Receivers nat | PublishErr string

record BuildServer =
  publisher :: "nat \<Rightarrow> publish_reply \<times> nat"
  projectID :: string

record effects =
  publish_calls :: nat
  waited :: nat
  accepted :: "(string \<times> string) list"
  stdlog :: "string list"
  s3_objects :: "(string \<times> string \<times> string) list"

definition no_effects :: effects where
  "no_effects = \<lparr>publish_calls = 0, waited = 0, accepted = [], stdlog = [], s3_objects = []\<rparr>"

definition log_print :: "string \<Rightarrow> effects \<Rightarrow> effects" where
  "log_print line e = e\<lparr>stdlog := stdlog e @ [line]\<rparr>"

text \<open>
  \<^verbatim>\<open>fmt.Sprintf\<close> with the verb \<^verbatim>\<open>%s\<close> copies the bytes of a string argument unchanged,
  so both format strings of \<^verbatim>\<open>publishLog\<close> are plain concatenations.
\<close>

definition logMessage :: "string \<Rightarrow> string" where
  \<open>logMessage message = ''{"log":"'' @ message @ ''"}''\<close>

definition publish_channel :: "BuildServer \<Rightarrow> string" where
  "publish_channel bs = ''logs:'' @ projectID bs"

definition publishLog :: "BuildServer \<Rightarrow> string \<Rightarrow> effects \<Rightarrow> effects" where
  "publishLog bs message e =
     (case publisher bs (publish_calls e) of
        (Receivers n, took) \<Rightarrow>
          e\<lparr>publish_calls := Suc (publish_calls e), waited := waited e + took,
            accepted := accepted e @ [(publish_channel bs, logMessage message)]\<rparr>
      | (PublishErr err, took) \<Rightarrow>
          log_print (''Failed to publish log: '' @ err)
            (e\<lparr>publish_calls := Suc (publish_calls e), waited := waited e + took\<rparr>))"

subsection \<open>What a goroutine does, in the order of its code\<close>

text \<open>
  The program runs three goroutines: the one of \<^verbatim>\<open>main\<close> and the two that \<^verbatim>\<open>runBuild\<close>
  starts to read the pipes. They share the Redis client, the logger and nothing else,
  and nothing orders a statement of one against a statement of another. Each function
  below therefore gives what its goroutine does to the collaborators as a list, in the
  order of its code, next to its result; how the lists of the three goroutines fall into
  one another is the scheduler's choice and is made at the end, in \<open>interleave\<close>.

  One entry of such a list is a line for the logger, a call of \<^verbatim>\<open>publishLog\<close>, or an
  object that \<^verbatim>\<open>PutObject\<close> stored.
\<close>

datatype action = Log string | Publish string | PutObject string string string

fun perform :: "BuildServer \<Rightarrow> action \<Rightarrow> effects \<Rightarrow> effects" where
  "perform bs (Log line) e = log_print line e"
| "perform bs (Publish message) e = publishLog bs message e"
| "perform bs (PutObject bucket key contentType) e =
     e\<lparr>s3_objects := s3_objects e @ [(bucket, key, contentType)]\<rparr>"

subsection \<open>The two reader goroutines\<close>

text \<open>
  Each goroutine loops over \<^verbatim>\<open>Read\<close> on its pipe. A result of \<^verbatim>\<open>Read\<close> is the chunk
  \<^verbatim>\<open>buf[:n]\<close> together with whether an error came with it; \<^verbatim>\<open>n > 0\<close> is the chunk being
  non-empty. The argument lists the results the goroutine gets from its calls of
  \<^verbatim>\<open>Read\<close>, in their order. The body tests \<^verbatim>\<open>n > 0\<close> first, so a chunk that arrives
  together with the error is still logged and published, and tests the error second,
  which ends the loop. When the list ends without an error the goroutine is blocked in
  \<^verbatim>\<open>Read\<close>.
\<close>

fun stdout_reader :: "(string \<times> bool) list \<Rightarrow> action list" where
  "stdout_reader [] = []"
| "stdout_reader ((output, err) # rs) =
     (if 0 < length output then [Log output, Publish output] else []) @
     (if err then [] else stdout_reader rs)"

fun stderr_reader :: "(string \<times> bool) list \<Rightarrow> action list" where
  "stderr_reader [] = []"
| "stderr_reader ((output, err) # rs) =
     (if 0 < length output
      then [Log (''Error: '' @ output), Publish (''error: '' @ output)] else []) @
     (if err then [] else stderr_reader rs)"

subsection \<open>Uploading the build output\<close>

text \<open>
  \<^verbatim>\<open>filepath.Walk\<close> calls the function literal once per entry under \<^verbatim>\<open>output/dist\<close>.
  What the file system, \<^verbatim>\<open>filepath.Rel\<close>, \<^verbatim>\<open>os.Open\<close>, \<^verbatim>\<open>mime.TypeByExtension\<close> and
  \<^verbatim>\<open>PutObject\<close> answer for an entry is part of the entry; the first entry is the root
  \<^verbatim>\<open>output/dist\<close> itself. The function literal returns \<^verbatim>\<open>nil\<close> or an error; the first
  component of the result of \<open>upload_entry\<close> is \<open>True\<close> for \<^verbatim>\<open>nil\<close>. \<^verbatim>\<open>Walk\<close> stops at the
  first error.
\<close>

record file_entry =
  filePath :: string
  relPath :: "string option"
  opens :: bool
  mime_type :: string
  put_ok :: bool

datatype walk_entry = WalkError | Directory | RegularFile file_entry

datatype error =
    StdoutPipeError | StderrPipeError | StartError | BuildCommandFailed
  | UploadFailed | AWSConfigError | ProjectIDRequired

text \<open>
  The text of each error as \<^verbatim>\<open>fmt.Errorf\<close> words it; the cause wrapped with \<^verbatim>\<open>%w\<close> comes from
  the operating system or a library and is left out.
\<close>

fun error_text :: "error \<Rightarrow> string" where
  "error_text StdoutPipeError = ''failed to create stdout pipe''"
| "error_text StderrPipeError = ''failed to create stderr pipe''"
| "error_text StartError = ''failed to start command''"
| "error_text BuildCommandFailed = ''build command failed''"
| "error_text UploadFailed = ''failed to upload files''"
| "error_text AWSConfigError = ''failed to load AWS config''"
| "error_text ProjectIDRequired = ''PROJECT_ID environment variable is required''"

definition upload_entry :: "BuildServer \<Rightarrow> string \<Rightarrow> walk_entry \<Rightarrow> bool \<times> action list" where
  "upload_entry bs bucket_env entry =
     (case entry of
        WalkError \<Rightarrow> (False, [])
      | Directory \<Rightarrow> (True, [])
      | RegularFile f \<Rightarrow>
          (case relPath f of
             None \<Rightarrow> (False, [])
           | Some rel \<Rightarrow>
               let uploading = [Log (''uploading '' @ filePath f), Publish (''uploading '' @ rel)]
               in if \<not> opens f then (False, uploading)
                  else
                    let contentType = (if mime_type f = [] then ''application/octet-stream'' else mime_type f);
                        bucket = (if bucket_env = [] then ''vercel-clone-outputs'' else bucket_env);
                        key = ''__outputs/'' @ projectID bs @ ''/'' @ rel
                    in if \<not> put_ok f then (False, uploading)
                       else
                         (True,
                          uploading @
                          [PutObject bucket key contentType,
                           Publish (''uploaded '' @ rel),
                           Log (''uploaded '' @ filePath f)])))"

fun walk :: "BuildServer \<Rightarrow> string \<Rightarrow> walk_entry list \<Rightarrow> bool \<times> action list" where
  "walk bs bucket_env [] = (True, [])"
| "walk bs bucket_env (entry # entries) =
     (case upload_entry bs bucket_env entry of
        (False, acts) \<Rightarrow> (False, acts)
      | (True, acts) \<Rightarrow>
          (case walk bs bucket_env entries of (ok, later) \<Rightarrow> (ok, acts @ later)))"

definition uploadFiles :: "BuildServer \<Rightarrow> string \<Rightarrow> walk_entry list \<Rightarrow> error option \<times> action list" where
  "uploadFiles bs bucket_env dist =
     (case walk bs bucket_env dist of
        (False, acts) \<Rightarrow> (Some UploadFailed, Publish ''Starting to upload'' # acts)
      | (True, acts) \<Rightarrow>
          (None, Publish ''Starting to upload'' # acts @ [Publish ''Done'', Log ''Done...'']))"

subsection \<open>runBuild and main\<close>

text \<open>
  The goroutine of \<^verbatim>\<open>main\<close> also starts the two readers. Its list therefore holds, next
  to what it does itself (\<open>Do\<close>), the places of the two \<^verbatim>\<open>go\<close> statements (\<open>Go\<close>).
  \<^verbatim>\<open>cmd.Wait()\<close> does nothing to the collaborators; it only holds the goroutine until the
  process has ended, and its result is part of the environment.
\<close>

datatype goroutine = MainG | StdoutG | StderrG

datatype stmt = Do action | Go goroutine

record build_env =
  stdout_pipe_ok :: bool
  stderr_pipe_ok :: bool
  start_ok :: bool
  stdout_reads :: "(string \<times> bool) list"
  stderr_reads :: "(string \<times> bool) list"
  wait_ok :: bool
  s3_bucket :: string
  dist :: "walk_entry list"

definition runBuild :: "BuildServer \<Rightarrow> build_env \<Rightarrow> error option \<times> stmt list" where
  "runBuild bs env =
     (let started = [Do (Log ''Executing build script''), Do (Publish ''Build Started...'')]
      in if \<not> stdout_pipe_ok env then (Some StdoutPipeError, started)
         else if \<not> stderr_pipe_ok env then (Some StderrPipeError, started)
         else if \<not> start_ok env then (Some StartError, started)
         else
           let reading = started @ [Go StdoutG, Go StderrG]
           in if \<not> wait_ok env then (Some BuildCommandFailed, reading)
              else
                (case uploadFiles bs (s3_bucket env) (dist env) of
                   (result, uploaded) \<Rightarrow>
                     (result,
                      reading @ [Do (Log ''Build Complete''), Do (Publish ''Build Complete'')]
                        @ map Do uploaded)))"

record process_env =
  redis :: "nat \<Rightarrow> publish_reply \<times> nat"
  aws_config_ok :: bool
  PROJECT_ID :: string
  build :: build_env

definition NewBuildServer :: "process_env \<Rightarrow> error + BuildServer" where
  "NewBuildServer p =
     (if \<not> aws_config_ok p then Inl AWSConfigError
      else if PROJECT_ID p = [] then Inl ProjectIDRequired
      else Inr \<lparr>publisher = redis p, projectID = PROJECT_ID p\<rparr>)"

text \<open>
  \<^verbatim>\<open>log.Fatalf\<close> writes its line and ends the process with exit status 1; a \<^verbatim>\<open>main\<close> that
  returns ends it with status 0. The result is the exit status and the list of the
  goroutine of \<^verbatim>\<open>main\<close>; the process ends when that goroutine has come to the end of
  its list.
\<close>

definition main :: "process_env \<Rightarrow> nat \<times> stmt list" where
  "main p =
     (case NewBuildServer p of
        Inl err \<Rightarrow> (1, [Do (Log (''Failed to initialize build server: '' @ error_text err))])
      | Inr buildServer \<Rightarrow>
          (case runBuild buildServer (build p) of
             (Some err, prog) \<Rightarrow> (1, prog @ [Do (Log (''Build failed: '' @ error_text err))])
           | (None, prog) \<Rightarrow> (0, prog)))"

subsection \<open>One run of the process\<close>

text \<open>
  A run is fixed by a schedule: the list of the goroutines in the order in which they
  are given their next step. A \<^verbatim>\<open>go\<close> statement makes its goroutine ready and does
  nothing else, so it is carried out as soon as the goroutine of \<^verbatim>\<open>main\<close> stands in
  front of it. A reader that is chosen before it was started, or after it has come to
  the end of its list, is passed over. When the goroutine of \<^verbatim>\<open>main\<close> is chosen at the
  end of its list the process ends, and whatever the readers still had to do is never
  done; when the schedule is used up the goroutine of \<^verbatim>\<open>main\<close> runs on alone. A reader
  is given as whether it has been started and what is left of its list. The result lists
  what was done in the run, each entry with the goroutine that did it. The effects of
  the process are those of carrying out that list, one entry after the other, with the
  Redis client and the project identity of the environment (when \<^verbatim>\<open>NewBuildServer\<close>
  fails the list holds the line of \<^verbatim>\<open>log.Fatalf\<close> only).
\<close>

fun interleave ::
  "goroutine list \<Rightarrow> stmt list \<Rightarrow> bool \<times> action list \<Rightarrow> bool \<times> action list \<Rightarrow> (goroutine \<times> action) list" where
  "interleave sched (Go StdoutG # prog) (started, outs) errs = interleave sched prog (True, outs) errs"
| "interleave sched (Go StderrG # prog) outs (started, errs) = interleave sched prog outs (True, errs)"
| "interleave sched (Go MainG # prog) outs errs = interleave sched prog outs errs"
| "interleave [] [] outs errs = []"
| "interleave [] (Do a # prog) outs errs = (MainG, a) # interleave [] prog outs errs"
| "interleave (MainG # sched) [] outs errs = []"
| "interleave (MainG # sched) (Do a # prog) outs errs = (MainG, a) # interleave sched prog outs errs"
| "interleave (StdoutG # sched) prog (True, a # outs) errs =
     (StdoutG, a) # interleave sched prog (True, outs) errs"
| "interleave (StdoutG # sched) prog outs errs = interleave sched prog outs errs"
| "interleave (StderrG # sched) prog outs (True, a # errs) =
     (StderrG, a) # interleave sched prog outs (True, errs)"
| "interleave (StderrG # sched) prog outs errs = interleave sched prog outs errs"

fun perform_all :: "BuildServer \<Rightarrow> action list \<Rightarrow> effects \<Rightarrow> effects" where
  "perform_all bs [] e = e"
| "perform_all bs (a # as) e = perform_all bs as (perform bs a e)"

definition trace :: "process_env \<Rightarrow> goroutine list \<Rightarrow> (goroutine \<times> action) list" where
  "trace p sched =
     interleave sched (snd (main p))
       (False, stdout_reader (stdout_reads (build p)))
       (False, stderr_reader (stderr_reads (build p)))"

definition process :: "process_env \<Rightarrow> goroutine list \<Rightarrow> nat \<times> effects" where
  "process p sched =
     (fst (main p),
      perform_all \<lparr>publisher = redis p, projectID = PROJECT_ID p\<rparr> (map snd (trace p sched)) no_effects)"

text \<open>
  The actions of one goroutine in a run, and the statements of a list that do something.
\<close>

definition done_by :: "goroutine \<Rightarrow> (goroutine \<times> action) list \<Rightarrow> action list" where
  "done_by g tr = map snd (filter (\<lambda>x. fst x = g) tr)"

fun actions_of :: "stmt list \<Rightarrow> action list" where
  "actions_of [] = []"
| "actions_of (Do a # prog) = a # actions_of prog"
| "actions_of (Go g # prog) = actions_of prog"

fun puts_of :: "action list \<Rightarrow> (string \<times> string \<times> string) list" where
  "puts_of [] = []"
| "puts_of (PutObject bucket key contentType # as) = (bucket, key, contentType) # puts_of as"
| "puts_of (a # as) = puts_of as"

fun publishes_of :: "action list \<Rightarrow> string list" where
  "publishes_of [] = []"
| "publishes_of (Publish message # as) = message # publishes_of as"
| "publishes_of (a # as) = publishes_of as"

subsection \<open>Example builds\<close>

text \<open>
  The build of project \<^verbatim>\<open>abc123\<close> prints one chunk and exits with a non-zero status while
  \<^verbatim>\<open>output/dist\<close> holds a file that could be uploaded; the same build with a broker that
  takes 173 milliseconds for every call; and a build that prints the same chunk twice and
  succeeds.
\<close>

definition failing_build :: process_env where
  "failing_build =
     \<lparr>redis = (\<lambda>k. (Receivers 1, 0)), aws_config_ok = True, PROJECT_ID = ''abc123'',
      build = \<lparr>stdout_pipe_ok = True, stderr_pipe_ok = True, start_ok = True,
               stdout_reads = [(''Installing...'', False)], stderr_reads = [],
               wait_ok = False, s3_bucket = [],
               dist = [Directory,
                       RegularFile \<lparr>filePath = ''output/dist/index.html'',
                          relPath = Some ''index.html'', opens = True,
                          mime_type = ''text/html'', put_ok = True\<rparr>]\<rparr>\<rparr>"

definition slow_broker_build :: process_env where
  "slow_broker_build = failing_build\<lparr>redis := (\<lambda>k. (Receivers 0, 173))\<rparr>"

definition dotted_build :: process_env where
  "dotted_build =
     \<lparr>redis = (\<lambda>k. (Receivers 1, 0)), aws_config_ok = True, PROJECT_ID = ''abc123'',
      build = \<lparr>stdout_pipe_ok = True, stderr_pipe_ok = True, start_ok = True,
               stdout_reads = [(''.'', False), (''.'', True)], stderr_reads = [([], True)],
               wait_ok = True, s3_bucket = [], dist = [Directory]\<rparr>\<rparr>"

section \<open>The API server: one viewer connection\<close>

text \<open>
  The Go source of the API server is the second part of \<^verbatim>\<open>api-server-go/README.md\<close>
  (\<^verbatim>\<open>package main\<close>, with \<^verbatim>\<open>handleWebSocket\<close> and \<^verbatim>\<open>subscribeAndForward\<close>).

  \<^verbatim>\<open>conn.ReadJSON(&msg)\<close> decodes a frame into a \<^verbatim>\<open>map[string]interface{}\<close>: a map from
  keys to JSON values. The type assertion \<^verbatim>\<open>.(string)\<close> succeeds on a string value only; a
  missing key yields \<^verbatim>\<open>nil\<close>, on which it fails like on any other value.
\<close>

datatype jvalue =
    JNull | JBool bool | JNumber string | JString string
  | JArray "jvalue list" | JObject "(string \<times> jvalue) list"

definition subscribe_request :: "(string \<rightharpoonup> jvalue) \<Rightarrow> string option" where
  "subscribe_request msg =
     (case msg ''action'' of
        Some (JString action) \<Rightarrow>
          if action = ''subscribe'' then
            (case msg ''channel'' of
               Some (JString channel) \<Rightarrow> Some channel
             | _ \<Rightarrow> None)
          else None
      | _ \<Rightarrow> None)"

text \<open>
  Every frame the server writes is a \<^verbatim>\<open>map[string]string\<close> with the single key
  \<^verbatim>\<open>message\<close>; \<open>Message text\<close> stands for it.
\<close>

datatype frame = Message string

definition joined :: "string \<Rightarrow> frame" where
  "joined channel = Message (''Joined '' @ channel)"

text \<open>
  A connection is served by the goroutine running \<^verbatim>\<open>handleWebSocket\<close> and by one goroutine
  per \<^verbatim>\<open>go api.subscribeAndForward(conn, channel)\<close>. Each is at one of a few places of its
  code:
  \<^item> the handler is blocked in \<^verbatim>\<open>ReadJSON\<close>, or inside the \<^verbatim>\<open>WriteJSON\<close> of the
    confirmation for a channel, or has returned (and its deferred \<^verbatim>\<open>conn.Close()\<close> has run);
  \<^item> a forwarder has been started and has not yet run \<^verbatim>\<open>PSubscribe\<close>, or waits in
    \<^verbatim>\<open>range ch\<close>, or is inside the \<^verbatim>\<open>WriteJSON\<close> of a payload, or has left its loop (and
    its deferred \<^verbatim>\<open>pubsub.Close()\<close> has run).
  A call of \<^verbatim>\<open>WriteJSON\<close> takes time, so it has a beginning and a return of its own.
\<close>

datatype handler = Reading | Acknowledging string | Returned

datatype forwarder = Started string | Ranging string | Writing string string | Finished string

datatype writer = Handler | Forwarder nat

record session =
  handler :: handler
  forwarders :: "forwarder list"
  conn_closed :: bool
  sent :: "(writer \<times> frame) list"
  writing :: nat
  subscriptions :: nat
  writes_on_closed :: nat
  srvlog :: "string list"

text \<open>
  \<open>sent\<close> lists the frames that reached the viewer, each with the goroutine that wrote it;
  \<open>writing\<close> counts the calls of \<^verbatim>\<open>WriteJSON\<close> that have begun and not returned;
  \<open>subscriptions\<close> counts the pattern subscriptions opened with \<^verbatim>\<open>PSubscribe\<close> and not
  closed; \<open>writes_on_closed\<close> counts the calls of \<^verbatim>\<open>WriteJSON\<close> begun after
  \<^verbatim>\<open>conn.Close()\<close>.

  \<^verbatim>\<open>handleWebSocket\<close> starts with the upgrade; when it fails the function logs and returns
  and there is no session. \<open>connected\<close> is the session right after a successful upgrade.
\<close>

definition connected :: session where
  "connected = \<lparr>handler = Reading, forwarders = [], conn_closed = False, sent = [],
                 writing = 0, subscriptions = 0, writes_on_closed = 0, srvlog = []\<rparr>"

text \<open>
  What happens next on a connection is one of the following events. The environment
  chooses the event and what comes with it: the message read, the payload the broker
  hands to a forwarder, and whether the transport took a frame (the flag of a return of
  \<^verbatim>\<open>WriteJSON\<close>). An event for a goroutine that is not at the matching place of its code
  cannot happen and leaves the session as it is.
  \<^item> \<open>ReadJSON msg\<close>: \<^verbatim>\<open>conn.ReadJSON\<close> returns the decoded object \<open>msg\<close>.
  \<^item> \<open>ReadError\<close>: \<^verbatim>\<open>conn.ReadJSON\<close> returns an error: the viewer went away, the
    transport failed, or the frame does not decode into a map (no JSON, or JSON that is
    not an object).
  \<^item> \<open>AckReturns ok\<close>: the handler's \<^verbatim>\<open>conn.WriteJSON\<close> of the confirmation returns.
  \<^item> \<open>PSubscribe i\<close>: forwarder \<open>i\<close> runs \<^verbatim>\<open>api.subscriber.PSubscribe\<close> and reaches its loop.
  \<^item> \<open>Receive i payload\<close>: forwarder \<open>i\<close> takes the next message from \<^verbatim>\<open>ch\<close>.
  \<^item> \<open>WriteReturns i ok\<close>: the \<^verbatim>\<open>conn.WriteJSON\<close> of forwarder \<open>i\<close> returns.
  \<^item> \<open>ChannelClosed i\<close>: \<^verbatim>\<open>ch\<close> of forwarder \<open>i\<close> is closed and its \<^verbatim>\<open>range\<close> ends.
  A write succeeds when the transport takes the frame and \<^verbatim>\<open>conn.Close()\<close> has not run.
\<close>

datatype event =
    ReadJSON "string \<rightharpoonup> jvalue"
  | ReadError
  | AckReturns bool
  | PSubscribe nat
  | Receive nat string
  | WriteReturns nat bool
  | ChannelClosed nat

definition begin_write :: "session \<Rightarrow> session" where
  "begin_write s =
     s\<lparr>writing := Suc (writing s),
       writes_on_closed := (if conn_closed s then Suc (writes_on_closed s) else writes_on_closed s)\<rparr>"

definition forwarder_at :: "session \<Rightarrow> nat \<Rightarrow> forwarder option" where
  "forwarder_at s i = (if i < length (forwarders s) then Some (forwarders s ! i) else None)"

definition set_forwarder :: "nat \<Rightarrow> forwarder \<Rightarrow> session \<Rightarrow> session" where
  "set_forwarder i f s = s\<lparr>forwarders := (forwarders s)[i := f]\<rparr>"

text \<open>
  \<open>unmarshal payload\<close> says whether \<^verbatim>\<open>json.Unmarshal([]byte(msg.Payload), &logMsg)\<close>
  returns without error; the library function is a parameter of the model.
\<close>

fun handleWebSocket :: "session \<Rightarrow> event \<Rightarrow> session" where
  "handleWebSocket s (ReadJSON msg) =
     (if handler s = Reading then
        (case subscribe_request msg of
           None \<Rightarrow> s
         | Some channel \<Rightarrow>
             begin_write (s\<lparr>forwarders := forwarders s @ [Started channel],
                            handler := Acknowledging channel\<rparr>))
      else s)"
| "handleWebSocket s ReadError =
     (if handler s = Reading
      then s\<lparr>handler := Returned, conn_closed := True,
             srvlog := srvlog s @ [''WebSocket read error'']\<rparr>
      else s)"
| "handleWebSocket s (AckReturns ok) =
     (case handler s of
        Acknowledging channel \<Rightarrow>
          (if ok \<and> \<not> conn_closed s
           then s\<lparr>handler := Reading, writing := writing s - 1,
                  sent := sent s @ [(Handler, joined channel)]\<rparr>
           else s\<lparr>handler := Reading, writing := writing s - 1\<rparr>)
      | _ \<Rightarrow> s)"
| "handleWebSocket s ev = s"

fun subscribeAndForward :: "(string \<Rightarrow> bool) \<Rightarrow> session \<Rightarrow> event \<Rightarrow> session" where
  "subscribeAndForward unmarshal s (PSubscribe i) =
     (case forwarder_at s i of
        Some (Started channel) \<Rightarrow>
          set_forwarder i (Ranging channel) (s\<lparr>subscriptions := Suc (subscriptions s)\<rparr>)
      | _ \<Rightarrow> s)"
| "subscribeAndForward unmarshal s (Receive i payload) =
     (case forwarder_at s i of
        Some (Ranging channel) \<Rightarrow>
          (if \<not> unmarshal payload
           then s\<lparr>srvlog := srvlog s @ [''Failed to unmarshal log message'']\<rparr>
           else set_forwarder i (Writing channel payload) (begin_write s))
      | _ \<Rightarrow> s)"
| "subscribeAndForward unmarshal s (WriteReturns i ok) =
     (case forwarder_at s i of
        Some (Writing channel payload) \<Rightarrow>
          (if ok \<and> \<not> conn_closed s
           then set_forwarder i (Ranging channel)
                  (s\<lparr>writing := writing s - 1,
                     sent := sent s @ [(Forwarder i, Message payload)]\<rparr>)
           else set_forwarder i (Finished channel)
                  (s\<lparr>writing := writing s - 1, subscriptions := subscriptions s - 1,
                     srvlog := srvlog s @ [''WebSocket write error'']\<rparr>))
      | _ \<Rightarrow> s)"
| "subscribeAndForward unmarshal s (ChannelClosed i) =
     (case forwarder_at s i of
        Some (Ranging channel) \<Rightarrow>
          set_forwarder i (Finished channel) (s\<lparr>subscriptions := subscriptions s - 1\<rparr>)
      | _ \<Rightarrow> s)"
| "subscribeAndForward unmarshal s ev = s"

text \<open>
  One event moves one goroutine: the handler's events leave every forwarder where it is,
  and a forwarder's events leave the handler where it is.
\<close>

definition step :: "(string \<Rightarrow> bool) \<Rightarrow> session \<Rightarrow> event \<Rightarrow> session" where
  "step unmarshal s ev = subscribeAndForward unmarshal (handleWebSocket s ev) ev"

definition run :: "(string \<Rightarrow> bool) \<Rightarrow> session \<Rightarrow> event list \<Rightarrow> session" where
  "run unmarshal s evs = foldl (step unmarshal) s evs"

text \<open>
  The payloads the broker handed to forwarder \<open>i\<close> during a run, and the payloads that
  forwarder \<open>i\<close> got through to the viewer, both in their order.
\<close>

fun received :: "nat \<Rightarrow> event list \<Rightarrow> string list" where
  "received i [] = []"
| "received i (Receive j payload # evs) =
     (if j = i then payload # received i evs else received i evs)"
| "received i (ev # evs) = received i evs"

fun forwarded :: "nat \<Rightarrow> (writer \<times> frame) list \<Rightarrow> string list" where
  "forwarded i [] = []"
| "forwarded i ((Forwarder j, Message payload) # fs) =
     (if j = i then payload # forwarded i fs else forwarded i fs)"
| "forwarded i ((Handler, f) # fs) = forwarded i fs"

text \<open>
  The messages and runs used as examples below: the subscribe request of the
  specification, its malformed \<^verbatim>\<open>{"action":"ping"}\<close>, a viewer that subscribes to
  \<^verbatim>\<open>logs:A\<close> and is handed three payloads of which the second is no JSON, and a viewer
  whose connection fails on the read side after it has subscribed. Where an example needs
  a concrete \<open>unmarshal\<close>, \<open>single_log_object\<close> (defined below) stands in for
  \<^verbatim>\<open>json.Unmarshal\<close>: both take the payloads \<^verbatim>\<open>{"log":"..."}\<close> of the examples and both
  refuse \<^verbatim>\<open>not json\<close>.
\<close>

definition subscribe_msg :: "string \<Rightarrow> (string \<rightharpoonup> jvalue)" where
  "subscribe_msg pattern = [''action'' \<mapsto> JString ''subscribe'', ''channel'' \<mapsto> JString pattern]"

definition ping_msg :: "string \<rightharpoonup> jvalue" where
  "ping_msg = [''action'' \<mapsto> JString ''ping'']"

definition viewer_run :: "event list" where
  \<open>viewer_run = [ReadJSON (subscribe_msg ''logs:A''), AckReturns True, PSubscribe 0,
                 Receive 0 ''{"log":"Build Started..."}'', WriteReturns 0 True,
                 Receive 0 ''not json'',
                 Receive 0 ''{"log":"Done"}'', WriteReturns 0 True]\<close>

definition closed_viewer_run :: "event list" where
  "closed_viewer_run = [ReadJSON (subscribe_msg ''logs:A''), AckReturns True, PSubscribe 0, ReadError]"

text \<open>
  Readings of a session that the proofs use: whether a forwarder holds an open
  subscription, the payload a forwarder is writing at the moment (if any), whether the
  handler is inside the write of a confirmation, and whether a forwarder is inside a write.
\<close>

definition is_subscribed :: "forwarder \<Rightarrow> bool" where
  "is_subscribed f = (case f of Ranging c \<Rightarrow> True | Writing c p \<Rightarrow> True | _ \<Rightarrow> False)"

definition pending :: "nat \<Rightarrow> session \<Rightarrow> string list" where
  "pending i s = (case forwarder_at s i of Some (Writing ch p) \<Rightarrow> [p] | _ \<Rightarrow> [])"

definition acknowledging :: "session \<Rightarrow> nat" where
  "acknowledging s = (case handler s of Acknowledging c \<Rightarrow> 1 | _ \<Rightarrow> 0)"

definition is_writing :: "forwarder \<Rightarrow> bool" where
  "is_writing f = (case f of Writing c p \<Rightarrow> True | _ \<Rightarrow> False)"

section \<open>The published format, as the specification words it\<close>

text \<open>
  The specification gives the payload on the broker channel as a JSON object with the
  single field \<^verbatim>\<open>log\<close> holding a JSON string. The text of a JSON string (RFC 8259,
  section 7) runs up to the first quotation mark that is not escaped; a backslash must be
  followed by one of the escape letters or by \<^verbatim>\<open>u\<close> and four hexadecimal digits, and a
  control character (below 0x20) may not stand in it unescaped. \<open>json_string_rest\<close>
  scans such a text and returns what follows its closing quotation mark.
  \<open>single_log_object\<close> recognises the object written without white space, the only form
  \<^verbatim>\<open>publishLog\<close> can produce: the payload starts with \<^verbatim>\<open>{"log":"\<close>, the string closes,
  and the closing brace is all that follows.
\<close>

definition hex_digit :: "char \<Rightarrow> bool" where
  "hex_digit c = (c \<in> set ''0123456789abcdefABCDEF'')"

fun json_string_rest :: "string \<Rightarrow> string option" where
  "json_string_rest [] = None"
| "json_string_rest (c # cs) =
     (if c = CHR 0x22 then Some cs
      else if c = CHR 0x5C then
        (case cs of
           [] \<Rightarrow> None
         | x # rest \<Rightarrow>
             if x \<in> set [CHR 0x22, CHR 0x5C, CHR ''/'', CHR ''b'', CHR ''f'', CHR ''n'', CHR ''r'', CHR ''t'']
             then json_string_rest rest
             else if x = CHR ''u'' then
               (case rest of
                  h1 # h2 # h3 # h4 # rest' \<Rightarrow>
                    if hex_digit h1 \<and> hex_digit h2 \<and> hex_digit h3 \<and> hex_digit h4
                    then json_string_rest rest' else None
                | _ \<Rightarrow> None)
             else None)
      else if (of_char c :: nat) < 0x20 then None
      else json_string_rest cs)"

definition single_log_object :: "string \<Rightarrow> bool" where
  \<open>single_log_object payload =
     (take 8 payload = ''{"log":"'' \<and> json_string_rest (drop 8 payload) = Some ''}'')\<close>

text \<open>
  A character that stands for itself inside a JSON string: not the quotation mark, not
  the backslash, and not a control character.
\<close>

definition plain_char :: "char \<Rightarrow> bool" where
  "plain_char c = (c \<noteq> CHR 0x22 \<and> c \<noteq> CHR 0x5C \<and> \<not> (of_char c :: nat) < 0x20)"

section \<open>Properties of the build server\<close>

subsection \<open>What a run leaves behind\<close>

lemma publishLog_fields:
  "publish_calls (publishLog bs m e) = Suc (publish_calls e)"
  "s3_objects (publishLog bs m e) = s3_objects e"
  "waited (publishLog bs m e) = waited e + snd (publisher bs (publish_calls e))"
  by (simp_all add: publishLog_def log_print_def split: prod.split publish_reply.split)

lemma log_print_fields:
  "publish_calls (log_print l e) = publish_calls e"
  "s3_objects (log_print l e) = s3_objects e"
  "accepted (log_print l e) = accepted e"
  "waited (log_print l e) = waited e"
  by (simp_all add: log_print_def)

lemma perform_all_append: "perform_all bs (xs @ ys) e = perform_all bs ys (perform_all bs xs e)"
  by (induction xs arbitrary: e) simp_all

lemma perform_all_s3: "s3_objects (perform_all bs acts e) = s3_objects e @ puts_of acts"
proof (induction acts arbitrary: e)
  case Nil
  show ?case by simp
next
  case (Cons a acts)
  show ?case by (cases a) (simp_all add: Cons.IH publishLog_fields log_print_fields)
qed

lemma perform_all_calls:
  "publish_calls (perform_all bs acts e) = publish_calls e + length (publishes_of acts)"
proof (induction acts arbitrary: e)
  case Nil
  show ?case by simp
next
  case (Cons a acts)
  show ?case by (cases a) (simp_all add: Cons.IH publishLog_fields log_print_fields)
qed

lemma perform_waited:
  assumes "waited e = (\<Sum>k<publish_calls e. snd (publisher bs k))"
  shows "waited (perform bs a e) = (\<Sum>k<publish_calls (perform bs a e). snd (publisher bs k))"
  using assms by (cases a) (simp_all add: publishLog_fields log_print_fields)

lemma perform_all_waited:
  assumes "waited e = (\<Sum>k<publish_calls e. snd (publisher bs k))"
  shows "waited (perform_all bs acts e) = (\<Sum>k<publish_calls (perform_all bs acts e). snd (publisher bs k))"
  using assms
proof (induction acts arbitrary: e)
  case Nil
  then show ?case by simp
next
  case (Cons a acts)
  from Cons.IH[OF perform_waited[OF Cons.prems, of a]] show ?case by simp
qed

lemma done_by_Cons [simp]:
  "done_by g ((h, a) # tr) = (if h = g then a # done_by g tr else done_by g tr)"
  by (simp add: done_by_def)

lemma done_by_Nil [simp]: "done_by g [] = []"
  by (simp add: done_by_def)

lemma main_does_all: "done_by MainG (interleave sched prog outs errs) = actions_of prog"
  by (induction sched prog outs errs rule: interleave.induct) simp_all

lemma stdout_does_prefix:
  "prefix (done_by StdoutG (interleave sched prog outs errs)) (snd outs)"
  by (induction sched prog outs errs rule: interleave.induct) simp_all

lemma stderr_does_prefix:
  "prefix (done_by StderrG (interleave sched prog outs errs)) (snd errs)"
  by (induction sched prog outs errs rule: interleave.induct) simp_all

lemma puts_of_append [simp]: "puts_of (xs @ ys) = puts_of xs @ puts_of ys"
  by (induction xs rule: puts_of.induct) simp_all

lemma puts_of_same_head: "puts_of xs = puts_of ys \<Longrightarrow> puts_of (a # xs) = puts_of (a # ys)"
  by (cases a) simp_all

lemma puts_of_Cons_Nil_iff:
  "puts_of (a # as) = [] \<longleftrightarrow> (\<forall>b k c. a \<noteq> PutObject b k c) \<and> puts_of as = []"
  by (cases a) auto

lemma puts_of_skip: "\<forall>b k c. a \<noteq> PutObject b k c \<Longrightarrow> puts_of (a # xs) = puts_of xs"
  by (cases a) auto

lemma interleave_puts:
  "puts_of (snd outs) = [] \<Longrightarrow> puts_of (snd errs) = [] \<Longrightarrow>
   puts_of (map snd (interleave sched prog outs errs)) = puts_of (actions_of prog)"
  by (induction sched prog outs errs rule: interleave.induct)
     (auto simp: puts_of_Cons_Nil_iff puts_of_skip intro: puts_of_same_head)

lemma reader_puts [simp]:
  "puts_of (stdout_reader rs) = []" "puts_of (stderr_reader rs) = []"
  by (induction rs) auto

lemma upload_entry_publisher:
  "upload_entry (bs\<lparr>publisher := q\<rparr>) b x = upload_entry bs b x"
  by (simp add: upload_entry_def Let_def split: walk_entry.split option.split)

lemma walk_publisher: "walk (bs\<lparr>publisher := q\<rparr>) b xs = walk bs b xs"
  by (induction xs) (simp_all add: upload_entry_publisher split: prod.split bool.split)

lemma uploadFiles_publisher: "uploadFiles (bs\<lparr>publisher := q\<rparr>) b xs = uploadFiles bs b xs"
  by (simp add: uploadFiles_def walk_publisher)

lemma runBuild_publisher: "runBuild (bs\<lparr>publisher := q\<rparr>) env = runBuild bs env"
  by (simp add: runBuild_def Let_def uploadFiles_publisher)

lemma main_redis: "main (p\<lparr>redis := q\<rparr>) = main p"
proof -
  have "runBuild \<lparr>publisher = q, projectID = PROJECT_ID p\<rparr> env
        = runBuild \<lparr>publisher = redis p, projectID = PROJECT_ID p\<rparr> env" for env
    using runBuild_publisher[where bs = "\<lparr>publisher = redis p, projectID = PROJECT_ID p\<rparr>"
            and q = q and env = env] by simp
  then show ?thesis by (simp add: main_def NewBuildServer_def)
qed

lemma trace_redis: "trace (p\<lparr>redis := q\<rparr>) sched = trace p sched"
  by (simp add: trace_def main_redis)

lemma process_s3: "s3_objects (snd (process p sched)) = puts_of (actions_of (snd (main p)))"
  by (simp add: process_def perform_all_s3 no_effects_def trace_def interleave_puts)

lemma process_calls:
  "publish_calls (snd (process p sched)) = length (publishes_of (map snd (trace p sched)))"
  by (simp add: process_def perform_all_calls no_effects_def)

lemma process_waited:
  "waited (snd (process p sched)) = (\<Sum>k<publish_calls (snd (process p sched)). snd (redis p k))"
  using perform_all_waited[of no_effects "\<lparr>publisher = redis p, projectID = PROJECT_ID p\<rparr>"
          "map snd (trace p sched)"]
  by (simp add: process_def no_effects_def)

subsection \<open>A build whose command exits with a non-zero status\<close>

text \<open>
  Claim C1 says that a build whose process starts and then exits with a non-zero status
  is reported by a terminal log event rather than as a fatal error, and that the upload is
  still attempted. The code returns from \<^verbatim>\<open>runBuild\<close> as soon as \<^verbatim>\<open>cmd.Wait()\<close> gives an
  error. Amended to what the code does: when the pipes and the start succeed and
  \<^verbatim>\<open>Wait\<close> fails, \<^verbatim>\<open>runBuild\<close> returns the error "build command failed" having done
  nothing but log and publish the start message and start the two readers. In every run
  the goroutine of \<^verbatim>\<open>main\<close> then only writes the line of \<^verbatim>\<open>log.Fatalf\<close>, so nothing is
  published but the start message and what the readers publish, \<^verbatim>\<open>uploadFiles\<close> is not
  called and no object reaches S3, and the process ends with exit status 1.
\<close>

theorem runBuild_nonzero_exit:
  assumes "stdout_pipe_ok env" and "stderr_pipe_ok env" and "start_ok env" and "\<not> wait_ok env"
  shows "runBuild bs env =
           (Some BuildCommandFailed,
            [Do (Log ''Executing build script''), Do (Publish ''Build Started...''),
             Go StdoutG, Go StderrG])
       \<and> fst (process \<lparr>redis = r, aws_config_ok = True, PROJECT_ID = c # cs, build = env\<rparr> sched) = 1
       \<and> done_by MainG (trace \<lparr>redis = r, aws_config_ok = True, PROJECT_ID = c # cs, build = env\<rparr> sched)
           = [Log ''Executing build script'', Publish ''Build Started...'',
              Log ''Build failed: build command failed'']
       \<and> s3_objects (snd (process \<lparr>redis = r, aws_config_ok = True, PROJECT_ID = c # cs, build = env\<rparr> sched)) = []"
proof -
  let ?p = "\<lparr>redis = r, aws_config_ok = True, PROJECT_ID = c # cs, build = env\<rparr>"
  have rb: "runBuild b env =
           (Some BuildCommandFailed,
            [Do (Log ''Executing build script''), Do (Publish ''Build Started...''),
             Go StdoutG, Go StderrG])" for b
    using assms by (simp add: runBuild_def)
  have m: "main ?p = (1, [Do (Log ''Executing build script''), Do (Publish ''Build Started...''),
             Go StdoutG, Go StderrG, Do (Log ''Build failed: build command failed'')])"
    by (simp add: main_def NewBuildServer_def rb)
  have "done_by MainG (trace ?p sched) = actions_of (snd (main ?p))"
    unfolding trace_def by (rule main_does_all)
  with m rb process_s3[of ?p sched] show ?thesis
    by (simp add: process_def)
qed

theorem runBuild_nonzero_exit_witness:
  "stdout_pipe_ok (build failing_build) \<and> stderr_pipe_ok (build failing_build)
   \<and> start_ok (build failing_build) \<and> \<not> wait_ok (build failing_build)
   \<and> fst (process failing_build [StdoutG, MainG, StdoutG, MainG, StdoutG]) = 1
   \<and> s3_objects (snd (process failing_build [StdoutG, MainG, StdoutG, MainG, StdoutG])) = []"
  using runBuild_nonzero_exit[of "build failing_build" "\<lparr>publisher = redis failing_build, projectID = ''abc123''\<rparr>"
          "redis failing_build" "CHR ''a''" "''bc123''" "[StdoutG, MainG, StdoutG, MainG, StdoutG]"]
  by (simp add: failing_build_def)

text \<open>
  Against the claim as it is worded: the run ends with exit status 1, the only events on
  the channel are the start message and the chunk, and S3 stays empty.
\<close>

theorem runBuild_nonzero_exit_counterexample:
  \<open>process failing_build [MainG, MainG, StdoutG, StdoutG, MainG] =
     (1, \<lparr>publish_calls = 2, waited = 0,
          accepted = [(''logs:abc123'', ''{"log":"Build Started..."}''),
                      (''logs:abc123'', ''{"log":"Installing..."}'')],
          stdlog = [''Executing build script'', ''Installing...'',
                    ''Build failed: build command failed''],
          s3_objects = []\<rparr>)\<close>
  by (simp add: process_def trace_def main_def NewBuildServer_def failing_build_def runBuild_def
      publishLog_def no_effects_def publish_channel_def logMessage_def log_print_def)

text \<open>
  Further property X2: in no run does an object reach S3 unless both pipes, the start and
  \<^verbatim>\<open>cmd.Wait()\<close> have succeeded.
\<close>

theorem upload_only_after_success:
  assumes "s3_objects (snd (process p sched)) \<noteq> []"
  shows "stdout_pipe_ok (build p) \<and> stderr_pipe_ok (build p) \<and> start_ok (build p) \<and> wait_ok (build p)"
  using assms
  by (auto simp: process_s3 main_def NewBuildServer_def runBuild_def Let_def
      split: if_splits sum.splits)

theorem upload_only_after_success_witness:
  "s3_objects (snd (process (failing_build\<lparr>build := (build failing_build)\<lparr>wait_ok := True\<rparr>\<rparr>) []))
     = [(''vercel-clone-outputs'', ''__outputs/abc123/index.html'', ''text/html'')]
   \<and> wait_ok (build (failing_build\<lparr>build := (build failing_build)\<lparr>wait_ok := True\<rparr>\<rparr>))"
  using upload_only_after_success[of "failing_build\<lparr>build := (build failing_build)\<lparr>wait_ok := True\<rparr>\<rparr>" "[]"]
  by (simp add: failing_build_def process_s3 main_def NewBuildServer_def runBuild_def uploadFiles_def
      upload_entry_def Let_def)

subsection \<open>The published payload\<close>

text \<open>
  Claim C2 says that every published payload is a JSON object with the single field
  \<^verbatim>\<open>log\<close> whose value is the message, on the channel \<^verbatim>\<open>logs:<buildID>\<close>. The channel is as
  claimed, but the message is pasted between the quotation marks as it is. A chunk of
  build output usually ends in a line feed; the payload then holds a raw control character
  inside the string and is not JSON.
\<close>

theorem publishLog_line_feed_payload:
  \<open>accepted (publishLog \<lparr>publisher = (\<lambda>k. (Receivers 1, 0)), projectID = ''abc123''\<rparr>
               (''Installing...'' @ [CHR 0x0A]) no_effects)
     = [(''logs:abc123'', ''{"log":"Installing...'' @ [CHR 0x0A] @ ''"}'')]
   \<and> \<not> single_log_object (''{"log":"Installing...'' @ [CHR 0x0A] @ ''"}'')
   \<and> single_log_object (logMessage ''Installing...'')\<close>
  by (simp add: publishLog_def no_effects_def publish_channel_def logMessage_def single_log_object_def)

lemma json_string_rest_plain:
  "list_all plain_char m \<Longrightarrow> json_string_rest (m @ CHR 0x22 # rest) = Some rest"
  by (induction m) (simp_all add: plain_char_def)

text \<open>
  Further property X1: for a message made of plain characters only, the payload is a JSON
  object with the single field \<^verbatim>\<open>log\<close>.
\<close>

theorem plain_message_payload:
  assumes "list_all plain_char message"
  shows "single_log_object (logMessage message)"
proof -
  have \<open>logMessage message = ''{"log":"'' @ message @ CHR 0x22 # ''}''\<close>
    by (simp add: logMessage_def)
  with json_string_rest_plain[OF assms, of "''}''"] show ?thesis
    by (simp add: single_log_object_def)
qed

theorem plain_message_payload_witness:
  "list_all plain_char ''Build Complete'' \<and> single_log_object (logMessage ''Build Complete'')"
  using plain_message_payload[of "''Build Complete''"] by (simp add: plain_char_def)

subsection \<open>Publishing swallows every failure, and waits for the broker\<close>

text \<open>
  Claim C4 says that every publish is fire-and-forget and never blocks the build.
  \<^verbatim>\<open>publishLog\<close> calls \<^verbatim>\<open>Publish(...).Err()\<close> on the goroutine of the build itself, so the
  goroutine is held until the call returns. Amended to what the code does: when the
  broker answers with an error the event is dropped (the list of accepted events is
  unchanged) and one line is written to the local log; a reply of zero receivers is no
  error and writes no line; \<^verbatim>\<open>publishLog\<close> has no result, so no error reaches its caller:
  with any other Redis client \<open>q\<close> in its place \<^verbatim>\<open>runBuild\<close> and \<^verbatim>\<open>main\<close> do the same,
  and every run ends with the same exit status, the same number of publish calls and the
  same objects in S3. The call is not free of waiting: each call of \<^verbatim>\<open>publishLog\<close> holds
  its goroutine for as long as the call of \<^verbatim>\<open>Publish\<close> takes, and over a run the
  goroutines of the build wait for the sum of the times of all their calls.
\<close>

theorem publishLog_fire_and_forget:
  "(fst (publisher bs (publish_calls e)) = PublishErr err \<longrightarrow>
      accepted (publishLog bs m e) = accepted e \<and>
      stdlog (publishLog bs m e) = stdlog e @ [''Failed to publish log: '' @ err])
   \<and> (fst (publisher bs (publish_calls e)) = Receivers 0 \<longrightarrow>
      accepted (publishLog bs m e) = accepted e @ [(publish_channel bs, logMessage m)] \<and>
      stdlog (publishLog bs m e) = stdlog e)
   \<and> waited (publishLog bs m e) = waited e + snd (publisher bs (publish_calls e))
   \<and> runBuild (bs\<lparr>publisher := q\<rparr>) env = runBuild bs env
   \<and> main (p\<lparr>redis := q\<rparr>) = main p
   \<and> fst (process (p\<lparr>redis := q\<rparr>) sched) = fst (process p sched)
   \<and> publish_calls (snd (process (p\<lparr>redis := q\<rparr>) sched)) = publish_calls (snd (process p sched))
   \<and> s3_objects (snd (process (p\<lparr>redis := q\<rparr>) sched)) = s3_objects (snd (process p sched))
   \<and> waited (snd (process p sched)) = (\<Sum>k<publish_calls (snd (process p sched)). snd (redis p k))"
proof -
  have a: "fst (process (p\<lparr>redis := q\<rparr>) sched) = fst (process p sched)"
    by (simp add: process_def main_redis)
  have b: "publish_calls (snd (process (p\<lparr>redis := q\<rparr>) sched)) = publish_calls (snd (process p sched))"
    by (simp add: process_calls trace_redis)
  have c: "s3_objects (snd (process (p\<lparr>redis := q\<rparr>) sched)) = s3_objects (snd (process p sched))"
    by (simp add: process_s3 main_redis)
  show ?thesis
    using a b c process_waited[of p sched]
    by (simp add: publishLog_fields runBuild_publisher main_redis)
       (auto simp: publishLog_def log_print_def split: prod.split publish_reply.split)
qed

theorem publishLog_fire_and_forget_witness:
  "fst (publisher \<lparr>publisher = (\<lambda>k. (PublishErr ''connection refused'', 5000)), projectID = ''abc123''\<rparr>
          (publish_calls no_effects)) = PublishErr ''connection refused''
   \<and> accepted (publishLog \<lparr>publisher = (\<lambda>k. (PublishErr ''connection refused'', 5000)), projectID = ''abc123''\<rparr>
               ''Build Complete'' no_effects) = []
   \<and> stdlog (publishLog \<lparr>publisher = (\<lambda>k. (PublishErr ''connection refused'', 5000)), projectID = ''abc123''\<rparr>
               ''Build Complete'' no_effects) = [''Failed to publish log: connection refused'']
   \<and> stdlog (publishLog \<lparr>publisher = (\<lambda>k. (Receivers 0, 1)), projectID = ''abc123''\<rparr>
               ''Build Complete'' no_effects) = []
   \<and> fst (process (failing_build\<lparr>redis := (\<lambda>k. (PublishErr ''connection refused'', 5000))\<rparr>) []) = 1"
  using publishLog_fire_and_forget[where bs = "\<lparr>publisher = (\<lambda>k. (PublishErr ''connection refused'', 5000)), projectID = ''abc123''\<rparr>"
          and e = no_effects and err = "''connection refused''" and m = "''Build Complete''"
          and p = failing_build and q = "\<lambda>k. (PublishErr ''connection refused'', 5000)" and sched = "[]"]
        publishLog_fire_and_forget[where bs = "\<lparr>publisher = (\<lambda>k. (Receivers 0, 1)), projectID = ''abc123''\<rparr>"
          and e = no_effects and m = "''Build Complete''"]
  by (simp add: no_effects_def failing_build_def process_def main_def NewBuildServer_def runBuild_def)

text \<open>
  Against the claim as it is worded: with a broker that takes 173 milliseconds for a call,
  the first \<^verbatim>\<open>publishLog\<close> of the build holds the goroutine of \<^verbatim>\<open>main\<close> for 173
  milliseconds before \<^verbatim>\<open>runBuild\<close> goes on to create the pipes, and the run with two
  publish calls has waited 346 milliseconds.
\<close>

theorem publishLog_blocks_counterexample:
  "waited (publishLog \<lparr>publisher = (\<lambda>k. (Receivers 0, 173)), projectID = ''abc123''\<rparr>
             ''Build Started...'' no_effects) = 173
   \<and> waited (snd (process slow_broker_build [MainG, MainG, StdoutG, StdoutG, MainG])) = 346"
  by (simp add: process_def trace_def main_def NewBuildServer_def failing_build_def slow_broker_build_def
      runBuild_def publishLog_def no_effects_def log_print_def)

subsection \<open>What a published event carries\<close>

lemma stdout_reader_handled:
  "stdout_reader rs =
     concat (map (\<lambda>(out, err). if out = [] then [] else [Log out, Publish out])
                 (takeWhile (\<lambda>(out, err). \<not> err) rs @ take 1 (dropWhile (\<lambda>(out, err). \<not> err) rs)))"
  by (induction rs) (auto split: if_splits)

lemma stderr_reader_handled:
  "stderr_reader rs =
     concat (map (\<lambda>(out, err). if out = [] then []
                                 else [Log (''Error: '' @ out), Publish (''error: '' @ out)])
                 (takeWhile (\<lambda>(out, err). \<not> err) rs @ take 1 (dropWhile (\<lambda>(out, err). \<not> err) rs)))"
  by (induction rs) (auto split: if_splits)

text \<open>
  Claim C9 says that every published chunk carries the next sequence number of its build.
  \<^verbatim>\<open>publishLog\<close> keeps no counter and the payload holds the text only. Amended to what
  the code does: the goroutine of a stream handles the results of its reads in their
  order, up to and including the first that carries an error; for each of them that
  holds a non-empty chunk, also the one that carries the error, it logs the chunk and
  calls \<^verbatim>\<open>publishLog\<close> once with the chunk (a chunk of the error stream with
  \<^verbatim>\<open>error: \<close> in front). In every run what a reader has done is a beginning of that list:
  the events of one stream are published in the order in which its chunks were read, and
  the last of them may be missing when the process ends first. Nothing orders the events
  of the two streams against each other. A call of \<^verbatim>\<open>publishLog\<close> adds to the channel
  either nothing or the one event \<^verbatim>\<open>{"log":"<text>"}\<close>, which holds the text and no number.
\<close>

theorem readers_publish_in_read_order:
  "stdout_reader rs =
     concat (map (\<lambda>(out, err). if out = [] then [] else [Log out, Publish out])
                 (takeWhile (\<lambda>(out, err). \<not> err) rs @ take 1 (dropWhile (\<lambda>(out, err). \<not> err) rs)))
   \<and> stderr_reader rs =
     concat (map (\<lambda>(out, err). if out = [] then []
                                 else [Log (''Error: '' @ out), Publish (''error: '' @ out)])
                 (takeWhile (\<lambda>(out, err). \<not> err) rs @ take 1 (dropWhile (\<lambda>(out, err). \<not> err) rs)))
   \<and> prefix (done_by StdoutG (trace p sched)) (stdout_reader (stdout_reads (build p)))
   \<and> prefix (done_by StderrG (trace p sched)) (stderr_reader (stderr_reads (build p)))
   \<and> (accepted (publishLog bs m e) = accepted e
        \<or> accepted (publishLog bs m e) = accepted e @ [(publish_channel bs, logMessage m)])"
proof -
  have "prefix (done_by StdoutG (trace p sched)) (stdout_reader (stdout_reads (build p)))"
    using stdout_does_prefix[of sched "snd (main p)" "(False, stdout_reader (stdout_reads (build p)))"]
    by (simp add: trace_def)
  moreover have "prefix (done_by StderrG (trace p sched)) (stderr_reader (stderr_reads (build p)))"
    using stderr_does_prefix[of sched "snd (main p)" _ "(False, stderr_reader (stderr_reads (build p)))"]
    by (simp add: trace_def)
  moreover have "accepted (publishLog bs m e) = accepted e
        \<or> accepted (publishLog bs m e) = accepted e @ [(publish_channel bs, logMessage m)]"
    by (simp add: publishLog_def log_print_def split: prod.split publish_reply.split)
  ultimately show ?thesis
    using stdout_reader_handled[of rs] stderr_reader_handled[of rs] by blast
qed

text \<open>
  Against the claim as it is worded: a build that prints the same chunk twice publishes
  two events that are equal byte for byte, so no sequence number tells them apart.
\<close>

theorem logMessage_sequence_counterexample:
  \<open>process dotted_build [MainG, MainG, StdoutG, StdoutG, StdoutG, StdoutG, StderrG] =
     (0, \<lparr>publish_calls = 6, waited = 0,
          accepted = [(''logs:abc123'', ''{"log":"Build Started..."}''),
                      (''logs:abc123'', ''{"log":"."}''),
                      (''logs:abc123'', ''{"log":"."}''),
                      (''logs:abc123'', ''{"log":"Build Complete"}''),
                      (''logs:abc123'', ''{"log":"Starting to upload"}''),
                      (''logs:abc123'', ''{"log":"Done"}'')],
          stdlog = [''Executing build script'', ''.'', ''.'', ''Build Complete'', ''Done...''],
          s3_objects = []\<rparr>)\<close>
  by (simp add: process_def trace_def main_def NewBuildServer_def dotted_build_def runBuild_def
      uploadFiles_def upload_entry_def publishLog_def no_effects_def publish_channel_def
      logMessage_def log_print_def)

section \<open>Properties of the API server\<close>

subsection \<open>Reading the session after a step\<close>

lemma step_simps [simp]:
  "step um s (ReadJSON msg) = handleWebSocket s (ReadJSON msg)"
  "step um s ReadError = handleWebSocket s ReadError"
  "step um s (AckReturns ok) = handleWebSocket s (AckReturns ok)"
  "step um s (PSubscribe i) = subscribeAndForward um s (PSubscribe i)"
  "step um s (Receive i payload) = subscribeAndForward um s (Receive i payload)"
  "step um s (WriteReturns i ok) = subscribeAndForward um s (WriteReturns i ok)"
  "step um s (ChannelClosed i) = subscribeAndForward um s (ChannelClosed i)"
  by (simp_all add: step_def)

lemma begin_write_fields:
  "handler (begin_write s) = handler s"
  "forwarders (begin_write s) = forwarders s"
  "conn_closed (begin_write s) = conn_closed s"
  "sent (begin_write s) = sent s"
  "subscriptions (begin_write s) = subscriptions s"
  "srvlog (begin_write s) = srvlog s"
  "writing (begin_write s) = Suc (writing s)"
  by (simp_all add: begin_write_def)

lemma set_forwarder_fields:
  "handler (set_forwarder i f s) = handler s"
  "forwarders (set_forwarder i f s) = (forwarders s)[i := f]"
  "conn_closed (set_forwarder i f s) = conn_closed s"
  "sent (set_forwarder i f s) = sent s"
  "subscriptions (set_forwarder i f s) = subscriptions s"
  "writing (set_forwarder i f s) = writing s"
  "writes_on_closed (set_forwarder i f s) = writes_on_closed s"
  "srvlog (set_forwarder i f s) = srvlog s"
  by (simp_all add: set_forwarder_def)

lemma forwarder_at_set_forwarder:
  "forwarder_at (set_forwarder j f s) i =
     (if i = j \<and> j < length (forwarders s) then Some f else forwarder_at s i)"
  by (simp add: forwarder_at_def set_forwarder_def)

lemma forwarder_at_begin_write: "forwarder_at (begin_write s) i = forwarder_at s i"
  by (simp add: forwarder_at_def begin_write_def)

lemma forwarder_at_Some: "forwarder_at s i = Some f \<Longrightarrow> i < length (forwarders s) \<and> forwarders s ! i = f"
  by (simp add: forwarder_at_def split: if_splits)

lemma run_Nil: "run um s [] = s"
  by (simp add: run_def)

lemma run_Cons: "run um s (ev # evs) = run um (step um s ev) evs"
  by (simp add: run_def)

lemma run_snoc: "run um s (evs @ [ev]) = step um (run um s evs) ev"
  by (simp add: run_def)

lemma received_append: "received i (xs @ ys) = received i xs @ received i ys"
  by (induction i xs rule: received.induct) simp_all

lemma forwarded_append: "forwarded i (xs @ ys) = forwarded i xs @ forwarded i ys"
  by (induction i xs rule: forwarded.induct) simp_all

lemma subseq_snoc_drop:
  assumes "subseq (xs @ [p]) ys"
  shows "subseq xs ys"
proof -
  have "subseq xs (xs @ [p])" by (rule subseq_rev_drop_many) simp
  from this assms show ?thesis by (rule subseq_order.order_trans)
qed

lemma pending_set_forwarder:
  "pending i (set_forwarder j f s) =
     (if i = j \<and> j < length (forwarders s) then (case f of Writing ch p \<Rightarrow> [p] | _ \<Rightarrow> [])
      else pending i s)"
  by (simp add: pending_def forwarder_at_set_forwarder)

lemma pending_at:
  "forwarder_at s i = Some f \<Longrightarrow> pending i s = (case f of Writing ch p \<Rightarrow> [p] | _ \<Rightarrow> [])"
  by (simp add: pending_def)

lemma pending_simps:
  "pending i (begin_write s) = pending i s"
  "pending i (s\<lparr>srvlog := l\<rparr>) = pending i s"
  "pending i (s\<lparr>handler := h\<rparr>) = pending i s"
  "pending i (s\<lparr>sent := x\<rparr>) = pending i s"
  "pending i (s\<lparr>writing := w\<rparr>) = pending i s"
  "pending i (s\<lparr>subscriptions := n\<rparr>) = pending i s"
  "pending i (s\<lparr>conn_closed := b\<rparr>) = pending i s"
  by (simp_all add: pending_def forwarder_at_def begin_write_def)

lemma step_order:
  assumes "subseq (forwarded i (sent s) @ pending i s) R"
  shows "subseq (forwarded i (sent (step um s ev)) @ pending i (step um s ev))
                (R @ filter um (received i [ev]))"
proof (cases ev)
  case (ReadJSON msg)
  have "pending i (s\<lparr>forwarders := forwarders s @ [Started c], handler := h\<rparr>) = pending i s" for c h
    by (auto simp: pending_def forwarder_at_def nth_append)
  with assms ReadJSON show ?thesis
    by (simp add: begin_write_fields pending_simps split: option.split)
next
  case ReadError
  with assms show ?thesis by (simp add: pending_simps)
next
  case (AckReturns ok)
  with assms show ?thesis
    by (simp add: pending_simps forwarded_append split: handler.split)
next
  case (PSubscribe j)
  have "forwarder_at s j = Some (Started c) \<Longrightarrow>
        pending i (set_forwarder j (Ranging c) (s\<lparr>subscriptions := n\<rparr>)) = pending i s" for c n
    by (auto simp: pending_set_forwarder pending_simps pending_at)
  with assms PSubscribe show ?thesis
    by (simp add: set_forwarder_fields split: option.split forwarder.split)
next
  case (Receive j p)
  show ?thesis
  proof (cases "forwarder_at s j")
    case None
    with assms Receive show ?thesis by (simp add: subseq_rev_drop_many)
  next
    case (Some f)
    show ?thesis
    proof (cases f)
      case (Ranging c)
      show ?thesis
      proof (cases "um p")
        case False
        with assms Receive Some Ranging show ?thesis by (simp add: pending_simps)
      next
        case True
        show ?thesis
        proof (cases "j = i")
          case True
          from Some Ranging True have "pending i s = []" by (simp add: pending_def)
          moreover have "pending i (set_forwarder i (Writing c p) (begin_write s)) = [p]"
            using forwarder_at_Some[OF Some] True
            by (simp add: pending_set_forwarder begin_write_fields)
          ultimately show ?thesis
            using assms Receive Some Ranging \<open>um p\<close> True
            by (simp add: set_forwarder_fields begin_write_fields)
        next
          case False
          then have "pending i (set_forwarder j (Writing c p) (begin_write s)) = pending i s"
            by (simp add: pending_def forwarder_at_set_forwarder forwarder_at_begin_write)
          with assms Receive Some Ranging \<open>um p\<close> False show ?thesis
            by (simp add: set_forwarder_fields begin_write_fields)
        qed
      qed
    qed (use assms Receive Some in \<open>simp_all add: subseq_rev_drop_many\<close>)
  qed
next
  case (WriteReturns j ok)
  show ?thesis
  proof (cases "forwarder_at s j")
    case None
    with assms WriteReturns show ?thesis by simp
  next
    case (Some f)
    show ?thesis
    proof (cases f)
      case (Writing c p)
      show ?thesis
      proof (cases "j = i")
        case True
        from Some Writing True have p: "pending i s = [p]" by (simp add: pending_def)
        from forwarder_at_Some[OF Some] True have len: "i < length (forwarders s)" by simp
        with assms WriteReturns Some Writing True p show ?thesis
          by (auto simp: set_forwarder_fields forwarded_append pending_set_forwarder
              dest: subseq_snoc_drop)
      next
        case False
        then have "pending i (set_forwarder j g s') = pending i s'" for g s'
          by (simp add: pending_def forwarder_at_set_forwarder)
        with assms WriteReturns Some Writing False show ?thesis
          by (simp add: set_forwarder_fields forwarded_append pending_simps)
      qed
    qed (use assms WriteReturns Some in simp_all)
  qed
next
  case (ChannelClosed j)
  have "forwarder_at s j = Some (Ranging c) \<Longrightarrow>
        pending i (set_forwarder j (Finished c) (s\<lparr>subscriptions := n\<rparr>)) = pending i s" for c n
    by (auto simp: pending_set_forwarder pending_simps pending_at)
  with assms ChannelClosed show ?thesis
    by (simp add: set_forwarder_fields split: option.split forwarder.split)
qed

lemma run_order:
  "subseq (forwarded i (sent (run um connected evs)) @ pending i (run um connected evs))
          (filter um (received i evs))"
proof (induction evs rule: rev_induct)
  case Nil
  show ?case by (simp add: run_Nil connected_def pending_def forwarder_at_def)
next
  case (snoc ev evs)
  from step_order[OF snoc, of um ev] show ?case
    by (simp add: run_snoc received_append)
qed


lemma deliver_one:
  assumes "forwarder_at s i = Some (Ranging ch)" and "\<not> conn_closed s" and "um p"
  shows "forwarder_at (run um s [Receive i p, WriteReturns i True]) i = Some (Ranging ch)"
    and "\<not> conn_closed (run um s [Receive i p, WriteReturns i True])"
    and "sent (run um s [Receive i p, WriteReturns i True]) = sent s @ [(Forwarder i, Message p)]"
    and "subscriptions (run um s [Receive i p, WriteReturns i True]) = subscriptions s"
  using assms forwarder_at_Some[OF assms(1)]
  by (simp_all add: run_Cons run_Nil forwarder_at_set_forwarder forwarder_at_begin_write
      set_forwarder_fields begin_write_fields)

lemma deliver_all:
  assumes "forwarder_at s i = Some (Ranging ch)" and "\<not> conn_closed s" and "list_all um ps"
  shows "sent (run um s (concat (map (\<lambda>p. [Receive i p, WriteReturns i True]) ps)))
         = sent s @ map (\<lambda>p. (Forwarder i, Message p)) ps"
  using assms
proof (induction ps arbitrary: s)
  case Nil
  show ?case by (simp add: run_Nil)
next
  case (Cons p ps)
  let ?s = "run um s [Receive i p, WriteReturns i True]"
  from Cons.prems have p: "um p" and ps: "list_all um ps" by simp_all
  note d = deliver_one[of s i ch um p, OF Cons.prems(1,2) p]
  have "run um s (concat (map (\<lambda>p. [Receive i p, WriteReturns i True]) (p # ps)))
        = run um ?s (concat (map (\<lambda>p. [Receive i p, WriteReturns i True]) ps))"
    by (simp add: run_Cons run_Nil)
  with Cons.IH[OF d(1) d(2) ps] d(3) show ?case by simp
qed

lemma closed_step:
  assumes "conn_closed s"
  shows "conn_closed (step um s ev) \<and> sent (step um s ev) = sent s"
  using assms
  by (cases ev)
     (auto simp: set_forwarder_fields begin_write_fields
           split: option.split forwarder.split handler.split)

lemma closed_run:
  assumes "conn_closed s"
  shows "conn_closed (run um s evs) \<and> sent (run um s evs) = sent s"
proof (induction evs rule: rev_induct)
  case Nil
  from assms show ?case by (simp add: run_Nil)
next
  case (snoc ev evs)
  with closed_step[of "run um s evs" um ev] show ?case by (simp add: run_snoc)
qed

lemma count_update:
  "i < length xs \<Longrightarrow>
   length (filter P (xs[i := y])) + (if P (xs ! i) then 1 else 0)
     = length (filter P xs) + (if P y then 1 else 0)"
proof (induction xs arbitrary: i)
  case Nil
  then show ?case by simp
next
  case (Cons x xs)
  show ?case
  proof (cases i)
    case 0
    then show ?thesis by simp
  next
    case (Suc k)
    with Cons.prems have "k < length xs" by simp
    from Cons.IH[OF this] Suc show ?thesis by simp
  qed
qed

lemma writing_step:
  assumes "writing s = acknowledging s + length (filter is_writing (forwarders s))"
  shows "writing (step um s ev)
         = acknowledging (step um s ev) + length (filter is_writing (forwarders (step um s ev)))"
proof (cases ev)
  case (ReadJSON msg)
  with assms show ?thesis
    by (auto simp: acknowledging_def is_writing_def begin_write_def split: option.split)
next
  case ReadError
  with assms show ?thesis by (auto simp: acknowledging_def)
next
  case (AckReturns ok)
  with assms show ?thesis by (auto simp: acknowledging_def split: handler.split)
next
  case (PSubscribe j)
  show ?thesis
  proof (cases "forwarder_at s j")
    case None
    with assms PSubscribe show ?thesis by simp
  next
    case (Some f)
    from forwarder_at_Some[OF Some] have j: "j < length (forwarders s)" "forwarders s ! j = f" by simp_all
    from count_update[OF j(1), of is_writing "Ranging c" for c] j(2)
    have "f = Started c \<Longrightarrow> length (filter is_writing ((forwarders s)[j := Ranging c]))
            = length (filter is_writing (forwarders s))" for c
      by (simp add: is_writing_def)
    with assms PSubscribe Some show ?thesis
      by (cases f) (simp_all add: set_forwarder_fields acknowledging_def)
  qed
next
  case (Receive j p)
  show ?thesis
  proof (cases "forwarder_at s j")
    case None
    with assms Receive show ?thesis by simp
  next
    case (Some f)
    from forwarder_at_Some[OF Some] have j: "j < length (forwarders s)" "forwarders s ! j = f" by simp_all
    from count_update[OF j(1), of is_writing "Writing c p" for c] j(2)
    have "f = Ranging c \<Longrightarrow> length (filter is_writing ((forwarders s)[j := Writing c p]))
            = Suc (length (filter is_writing (forwarders s)))" for c
      by (simp add: is_writing_def)
    with assms Receive Some show ?thesis
      by (cases f) (simp_all add: set_forwarder_fields begin_write_fields acknowledging_def)
  qed
next
  case (WriteReturns j ok)
  show ?thesis
  proof (cases "forwarder_at s j")
    case None
    with assms WriteReturns show ?thesis by simp
  next
    case (Some f)
    from forwarder_at_Some[OF Some] have j: "j < length (forwarders s)" "forwarders s ! j = f" by simp_all
    have "f = Writing c p \<Longrightarrow>
            Suc (length (filter is_writing ((forwarders s)[j := Ranging c])))
              = length (filter is_writing (forwarders s)) \<and>
            Suc (length (filter is_writing ((forwarders s)[j := Finished c])))
              = length (filter is_writing (forwarders s))" for c p
      using count_update[OF j(1), of is_writing "Ranging c"]
            count_update[OF j(1), of is_writing "Finished c"] j(2)
      by (simp add: is_writing_def)
    with assms WriteReturns Some show ?thesis
      by (cases f) (auto simp: set_forwarder_fields acknowledging_def)
  qed
next
  case (ChannelClosed j)
  show ?thesis
  proof (cases "forwarder_at s j")
    case None
    with assms ChannelClosed show ?thesis by simp
  next
    case (Some f)
    from forwarder_at_Some[OF Some] have j: "j < length (forwarders s)" "forwarders s ! j = f" by simp_all
    from count_update[OF j(1), of is_writing "Finished c" for c] j(2)
    have "f = Ranging c \<Longrightarrow> length (filter is_writing ((forwarders s)[j := Finished c]))
            = length (filter is_writing (forwarders s))" for c
      by (simp add: is_writing_def)
    with assms ChannelClosed Some show ?thesis
      by (cases f) (simp_all add: set_forwarder_fields acknowledging_def)
  qed
qed

lemma writing_run:
  "writing (run um connected evs)
   = acknowledging (run um connected evs) + length (filter is_writing (forwarders (run um connected evs)))"
proof (induction evs rule: rev_induct)
  case Nil
  show ?case by (simp add: run_Nil connected_def acknowledging_def)
next
  case (snoc ev evs)
  from writing_step[OF snoc] show ?case by (simp add: run_snoc)
qed

lemma subscribe_request_Some:
  "msg ''action'' = Some (JString ''subscribe'') \<Longrightarrow> msg ''channel'' = Some (JString pattern) \<Longrightarrow>
   subscribe_request msg = Some pattern"
  by (simp add: subscribe_request_def)

lemma subscribe_request_None:
  "msg ''action'' \<noteq> Some (JString ''subscribe'') \<or> (\<forall>c. msg ''channel'' \<noteq> Some (JString c)) \<Longrightarrow>
   subscribe_request msg = None"
  by (auto simp: subscribe_request_def split: option.split jvalue.split)

lemma subseq_drop_suffix:
  assumes "subseq (xs @ zs) ys"
  shows "subseq xs ys"
proof -
  have "subseq xs (xs @ zs)" by (rule subseq_rev_drop_many) simp
  from this assms show ?thesis by (rule subseq_order.order_trans)
qed

lemma subseq_set: "subseq xs ys \<Longrightarrow> set xs \<subseteq> set ys"
  by (auto elim: list_emb_set)

lemma forwarded_subseq:
  "subseq (forwarded i (sent (run um connected evs))) (filter um (received i evs))"
  using run_order[of i um evs] by (rule subseq_drop_suffix)

lemma subscriptions_step:
  assumes "subscriptions s = length (filter is_subscribed (forwarders s))"
  shows "subscriptions (step um s ev) = length (filter is_subscribed (forwarders (step um s ev)))"
proof (cases ev)
  case (ReadJSON msg)
  with assms show ?thesis
    by (auto simp: is_subscribed_def begin_write_def split: option.split)
next
  case ReadError
  with assms show ?thesis by auto
next
  case (AckReturns ok)
  with assms show ?thesis by (auto split: handler.split)
next
  case (PSubscribe j)
  show ?thesis
  proof (cases "forwarder_at s j")
    case None
    with assms PSubscribe show ?thesis by simp
  next
    case (Some f)
    from forwarder_at_Some[OF Some] have j: "j < length (forwarders s)" "forwarders s ! j = f" by simp_all
    have "f = Started c \<Longrightarrow> length (filter is_subscribed ((forwarders s)[j := Ranging c]))
            = Suc (length (filter is_subscribed (forwarders s)))" for c
      using count_update[OF j(1), of is_subscribed "Ranging c"] j(2)
      by (simp add: is_subscribed_def)
    with assms PSubscribe Some show ?thesis
      by (cases f) (simp_all add: set_forwarder_fields)
  qed
next
  case (Receive j p)
  show ?thesis
  proof (cases "forwarder_at s j")
    case None
    with assms Receive show ?thesis by simp
  next
    case (Some f)
    from forwarder_at_Some[OF Some] have j: "j < length (forwarders s)" "forwarders s ! j = f" by simp_all
    have "f = Ranging c \<Longrightarrow> length (filter is_subscribed ((forwarders s)[j := Writing c p]))
            = length (filter is_subscribed (forwarders s))" for c
      using count_update[OF j(1), of is_subscribed "Writing c p"] j(2)
      by (simp add: is_subscribed_def)
    with assms Receive Some show ?thesis
      by (cases f) (simp_all add: set_forwarder_fields begin_write_fields)
  qed
next
  case (WriteReturns j ok)
  show ?thesis
  proof (cases "forwarder_at s j")
    case None
    with assms WriteReturns show ?thesis by simp
  next
    case (Some f)
    from forwarder_at_Some[OF Some] have j: "j < length (forwarders s)" "forwarders s ! j = f" by simp_all
    have "f = Writing c p \<Longrightarrow>
            length (filter is_subscribed ((forwarders s)[j := Ranging c]))
              = length (filter is_subscribed (forwarders s)) \<and>
            Suc (length (filter is_subscribed ((forwarders s)[j := Finished c])))
              = length (filter is_subscribed (forwarders s))" for c p
      using count_update[OF j(1), of is_subscribed "Ranging c"]
            count_update[OF j(1), of is_subscribed "Finished c"] j(2)
      by (simp add: is_subscribed_def)
    with assms WriteReturns Some show ?thesis
      by (cases f) (auto simp: set_forwarder_fields)
  qed
next
  case (ChannelClosed j)
  show ?thesis
  proof (cases "forwarder_at s j")
    case None
    with assms ChannelClosed show ?thesis by simp
  next
    case (Some f)
    from forwarder_at_Some[OF Some] have j: "j < length (forwarders s)" "forwarders s ! j = f" by simp_all
    have "f = Ranging c \<Longrightarrow> Suc (length (filter is_subscribed ((forwarders s)[j := Finished c])))
            = length (filter is_subscribed (forwarders s))" for c
      using count_update[OF j(1), of is_subscribed "Finished c"] j(2)
      by (simp add: is_subscribed_def)
    with assms ChannelClosed Some show ?thesis
      by (cases f) (auto simp: set_forwarder_fields)
  qed
qed

lemma subscriptions_run:
  "subscriptions (run um connected evs)
   = length (filter is_subscribed (forwarders (run um connected evs)))"
proof (induction evs rule: rev_induct)
  case Nil
  show ?case by (simp add: run_Nil connected_def)
next
  case (snoc ev evs)
  from subscriptions_step[OF snoc] show ?case by (simp add: run_snoc)
qed

subsection \<open>Subscribe requests\<close>

lemma deliver_mixed:
  assumes "forwarder_at s i = Some (Ranging ch)" and "\<not> conn_closed s"
  shows "sent (run um s (concat (map (\<lambda>p. if um p then [Receive i p, WriteReturns i True]
                                          else [Receive i p]) ps)))
         = sent s @ map (\<lambda>p. (Forwarder i, Message p)) (filter um ps)"
  using assms
proof (induction ps arbitrary: s)
  case Nil
  show ?case by (simp add: run_Nil)
next
  case (Cons p ps)
  show ?case
  proof (cases "um p")
    case True
    let ?s = "run um s [Receive i p, WriteReturns i True]"
    note d = deliver_one[of s i ch um p, OF Cons.prems True]
    have "run um s (concat (map (\<lambda>p. if um p then [Receive i p, WriteReturns i True]
                                       else [Receive i p]) (p # ps)))
          = run um ?s (concat (map (\<lambda>p. if um p then [Receive i p, WriteReturns i True]
                                         else [Receive i p]) ps))"
      using True by (simp add: run_Cons run_Nil)
    with Cons.IH[OF d(1) d(2)] d(3) True show ?thesis by simp
  next
    case False
    let ?s = "s\<lparr>srvlog := srvlog s @ [''Failed to unmarshal log message'']\<rparr>"
    have st: "step um s (Receive i p) = ?s"
      using Cons.prems(1) False by simp
    have "forwarder_at ?s i = Some (Ranging ch)" "\<not> conn_closed ?s"
      using Cons.prems by (simp_all add: forwarder_at_def split: if_splits)
    from Cons.IH[OF this] st False show ?thesis by (simp add: run_Cons)
  qed
qed

text \<open>
  Claim C5 says that a well-formed subscribe request opens exactly one pattern
  subscription, starts exactly one forwarder that writes each received payload to the
  connection, and sends the confirmation. The forwarder does not write each payload: one
  on which \<^verbatim>\<open>json.Unmarshal\<close> fails is dropped. Amended to what the code does: a
  well-formed subscribe request, read while the handler waits for one on an open
  connection, starts exactly one forwarder for the pattern (and opens no subscription
  itself); that forwarder opens exactly one pattern subscription with its \<^verbatim>\<open>PSubscribe\<close>;
  the confirmation \<^verbatim>\<open>{"message":"Joined <pattern>"}\<close> reaches the viewer when the transport
  takes it; and of the payloads handed to the new forwarder, however many, exactly those
  that unmarshal are written to the same connection, each once and in their order, as
  long as the writes are taken.
\<close>

theorem subscribe_request_served:
  assumes "handler s = Reading" and "\<not> conn_closed s"
      and "msg ''action'' = Some (JString ''subscribe'')"
      and "msg ''channel'' = Some (JString pattern)"
  shows "forwarders (step um s (ReadJSON msg)) = forwarders s @ [Started pattern]
       \<and> subscriptions (step um s (ReadJSON msg)) = subscriptions s
       \<and> forwarders (run um s [ReadJSON msg, PSubscribe (length (forwarders s))])
           = forwarders s @ [Ranging pattern]
       \<and> subscriptions (run um s [ReadJSON msg, PSubscribe (length (forwarders s))])
           = Suc (subscriptions s)
       \<and> sent (run um s [ReadJSON msg, AckReturns True]) = sent s @ [(Handler, joined pattern)]
       \<and> sent (run um s ([ReadJSON msg, AckReturns True, PSubscribe (length (forwarders s))] @
                          concat (map (\<lambda>p. if um p
                                            then [Receive (length (forwarders s)) p,
                                                  WriteReturns (length (forwarders s)) True]
                                            else [Receive (length (forwarders s)) p]) ps)))
           = sent s @ (Handler, joined pattern)
               # map (\<lambda>p. (Forwarder (length (forwarders s)), Message p)) (filter um ps)"
proof -
  let ?n = "length (forwarders s)"
  let ?s = "run um s [ReadJSON msg, AckReturns True, PSubscribe ?n]"
  have first: "forwarders (step um s (ReadJSON msg)) = forwarders s @ [Started pattern]
       \<and> subscriptions (step um s (ReadJSON msg)) = subscriptions s
       \<and> forwarders (run um s [ReadJSON msg, PSubscribe ?n]) = forwarders s @ [Ranging pattern]
       \<and> subscriptions (run um s [ReadJSON msg, PSubscribe ?n]) = Suc (subscriptions s)
       \<and> sent (run um s [ReadJSON msg, AckReturns True]) = sent s @ [(Handler, joined pattern)]"
    using assms
    by (simp add: run_Cons run_Nil subscribe_request_Some begin_write_fields set_forwarder_fields
        forwarder_at_def begin_write_def set_forwarder_def)
  have ready: "forwarder_at ?s ?n = Some (Ranging pattern)" "\<not> conn_closed ?s"
              "sent ?s = sent s @ [(Handler, joined pattern)]"
    using assms
    by (simp_all add: run_Cons run_Nil subscribe_request_Some begin_write_fields set_forwarder_fields
        forwarder_at_def begin_write_def set_forwarder_def)
  have split: "run um s ([ReadJSON msg, AckReturns True, PSubscribe ?n] @ evs) = run um ?s evs" for evs
    by (simp add: run_def)
  have "sent (run um s ([ReadJSON msg, AckReturns True, PSubscribe ?n] @
                        concat (map (\<lambda>p. if um p then [Receive ?n p, WriteReturns ?n True]
                                          else [Receive ?n p]) ps)))
        = sent s @ (Handler, joined pattern) # map (\<lambda>p. (Forwarder ?n, Message p)) (filter um ps)"
    unfolding split using deliver_mixed[OF ready(1,2), of um ps] ready(3) by simp
  with first show ?thesis by blast
qed

theorem subscribe_request_served_witness:
  \<open>handler connected = Reading \<and> \<not> conn_closed connected
   \<and> subscribe_msg ''logs:A'' ''action'' = Some (JString ''subscribe'')
   \<and> subscribe_msg ''logs:A'' ''channel'' = Some (JString ''logs:A'')
   \<and> sent (run single_log_object connected viewer_run)
     = [(Handler, Message ''Joined logs:A''),
        (Forwarder 0, Message ''{"log":"Build Started..."}''),
        (Forwarder 0, Message ''{"log":"Done"}'')]
   \<and> forwarders (run single_log_object connected [ReadJSON (subscribe_msg ''logs:A''), PSubscribe 0])
     = [Ranging ''logs:A'']
   \<and> subscriptions (run single_log_object connected [ReadJSON (subscribe_msg ''logs:A''), PSubscribe 0]) = 1\<close>
  using subscribe_request_served[of connected "subscribe_msg ''logs:A''" "''logs:A''" single_log_object
          \<open>[''{"log":"Build Started..."}'', ''not json'', ''{"log":"Done"}'']\<close>]
  by (simp add: connected_def subscribe_msg_def joined_def viewer_run_def single_log_object_def)

text \<open>
  Against the claim as it is worded: the viewer subscribes to \<^verbatim>\<open>logs:A\<close>, the forwarder is
  handed the payload \<^verbatim>\<open>not json\<close>, and the confirmation is all that was ever written to
  the connection; the forwarder is back in its loop with nothing to write.
\<close>

theorem subscribe_request_served_counterexample:
  "received 0 [ReadJSON (subscribe_msg ''logs:A''), AckReturns True, PSubscribe 0, Receive 0 ''not json'']
     = [''not json'']
   \<and> sent (run single_log_object connected
        [ReadJSON (subscribe_msg ''logs:A''), AckReturns True, PSubscribe 0, Receive 0 ''not json''])
     = [(Handler, Message ''Joined logs:A'')]
   \<and> forwarders (run single_log_object connected
        [ReadJSON (subscribe_msg ''logs:A''), AckReturns True, PSubscribe 0, Receive 0 ''not json''])
     = [Ranging ''logs:A'']"
  by (simp add: subscribe_msg_def connected_def run_Cons run_Nil subscribe_request_def
      begin_write_def forwarder_at_def set_forwarder_def joined_def single_log_object_def)

text \<open>
  Claim C6: a request whose \<^verbatim>\<open>action\<close> is not the string \<^verbatim>\<open>subscribe\<close>, or whose
  \<^verbatim>\<open>channel\<close> is missing or not a string, leaves the session exactly as it was: no
  confirmation, no forwarder, no subscription. Whatever follows on the connection runs as
  if the request had never been sent, so a later well-formed request is served.
\<close>

theorem malformed_request_ignored:
  assumes "msg ''action'' \<noteq> Some (JString ''subscribe'') \<or> (\<forall>c. msg ''channel'' \<noteq> Some (JString c))"
  shows "step um s (ReadJSON msg) = s \<and> run um s (ReadJSON msg # evs) = run um s evs"
  using subscribe_request_None[OF assms] by (simp add: run_Cons)

theorem malformed_request_ignored_witness:
  "ping_msg ''action'' \<noteq> Some (JString ''subscribe'')
   \<and> step (\<lambda>p. True) connected (ReadJSON ping_msg) = connected
   \<and> sent (run (\<lambda>p. True) connected [ReadJSON ping_msg, ReadJSON (subscribe_msg ''logs:A''), AckReturns True, PSubscribe 0])
       = [(Handler, Message ''Joined logs:A'')]
   \<and> subscriptions (run (\<lambda>p. True) connected [ReadJSON ping_msg, ReadJSON (subscribe_msg ''logs:A''), AckReturns True, PSubscribe 0]) = 1"
  using malformed_request_ignored[of ping_msg "\<lambda>p. True" connected
          "[ReadJSON (subscribe_msg ''logs:A''), AckReturns True, PSubscribe 0]"]
  by (simp add: ping_msg_def subscribe_msg_def connected_def run_Cons run_Nil subscribe_request_def
      begin_write_def forwarder_at_def set_forwarder_def joined_def)

subsection \<open>The forwarder\<close>

text \<open>
  Claim C3: a payload on which \<^verbatim>\<open>json.Unmarshal\<close> fails is dropped. The session is
  unchanged but for one line in the server's own log, so nothing is written to the viewer
  and the forwarder still waits in its loop; the next payload that unmarshals is
  forwarded; and in every run, whatever a forwarder got through to the viewer is among the
  payloads it was handed and that unmarshal.
\<close>

theorem unparsable_payload_dropped:
  "(forwarder_at s i = Some (Ranging ch) \<and> \<not> um payload \<longrightarrow>
      step um s (Receive i payload) = s\<lparr>srvlog := srvlog s @ [''Failed to unmarshal log message'']\<rparr>)
   \<and> (forwarder_at s i = Some (Ranging ch) \<and> \<not> um payload \<and> um next_payload \<and> \<not> conn_closed s \<longrightarrow>
      sent (run um s [Receive i payload, Receive i next_payload, WriteReturns i True])
        = sent s @ [(Forwarder i, Message next_payload)])
   \<and> set (forwarded i (sent (run um connected evs))) \<subseteq> {p \<in> set (received i evs). um p}"
proof -
  have drop: "step um s (Receive i payload) = s\<lparr>srvlog := srvlog s @ [''Failed to unmarshal log message'']\<rparr>"
    if "forwarder_at s i = Some (Ranging ch)" "\<not> um payload"
    using that by simp
  have continue: "sent (run um s [Receive i payload, Receive i next_payload, WriteReturns i True])
        = sent s @ [(Forwarder i, Message next_payload)]"
    if r: "forwarder_at s i = Some (Ranging ch)" and "\<not> um payload" "um next_payload" "\<not> conn_closed s"
  proof -
    let ?s = "s\<lparr>srvlog := srvlog s @ [''Failed to unmarshal log message'']\<rparr>"
    have "forwarder_at ?s i = Some (Ranging ch)" "\<not> conn_closed ?s"
      using that by (simp_all add: forwarder_at_def split: if_splits)
    from deliver_one(3)[of ?s i ch um next_payload, OF this \<open>um next_payload\<close>] drop[OF r \<open>\<not> um payload\<close>]
    show ?thesis by (simp add: run_Cons)
  qed
  have "set (forwarded i (sent (run um connected evs))) \<subseteq> set (filter um (received i evs))"
    using forwarded_subseq by (rule subseq_set)
  with drop continue show ?thesis by auto
qed

theorem unparsable_payload_dropped_witness:
  \<open>forwarder_at (run single_log_object connected (take 5 viewer_run)) 0 = Some (Ranging ''logs:A'')
   \<and> \<not> single_log_object ''not json''
   \<and> step single_log_object (run single_log_object connected (take 5 viewer_run)) (Receive 0 ''not json'')
     = (run single_log_object connected (take 5 viewer_run))
         \<lparr>srvlog := [''Failed to unmarshal log message'']\<rparr>
   \<and> sent (run single_log_object connected viewer_run)
     = [(Handler, Message ''Joined logs:A''),
        (Forwarder 0, Message ''{"log":"Build Started..."}''),
        (Forwarder 0, Message ''{"log":"Done"}'')]\<close>
  using unparsable_payload_dropped[of "run single_log_object connected (take 5 viewer_run)" 0 "''logs:A''"
          single_log_object "''not json''" \<open>''{"log":"Done"}''\<close> "[]"]
  by (simp add: viewer_run_def subscribe_msg_def connected_def run_Cons run_Nil subscribe_request_def
      begin_write_def forwarder_at_def set_forwarder_def joined_def single_log_object_def)

text \<open>
  Claim C7: a forwarder delivers in the order in which it receives. In every run, under
  every interleaving with the handler and with other forwarders, the payloads forwarder
  \<open>i\<close> got through to the viewer are a subsequence of the payloads it was handed, in the
  same order; and when the connection stays open, every payload unmarshals and every
  write is taken, the viewer gets exactly the payloads handed to the forwarder, in order.
\<close>

theorem forwarder_keeps_order:
  "subseq (forwarded i (sent (run um connected evs))) (received i evs)
   \<and> (forwarder_at s i = Some (Ranging ch) \<and> \<not> conn_closed s \<and> list_all um ps \<longrightarrow>
        sent (run um s (concat (map (\<lambda>p. [Receive i p, WriteReturns i True]) ps)))
          = sent s @ map (\<lambda>p. (Forwarder i, Message p)) ps)"
proof -
  have "subseq (forwarded i (sent (run um connected evs))) (filter um (received i evs))"
    by (rule forwarded_subseq)
  moreover have "subseq (filter um (received i evs)) (received i evs)" by simp
  ultimately have "subseq (forwarded i (sent (run um connected evs))) (received i evs)"
    by (rule subseq_order.order_trans)
  with deliver_all[of s i ch um ps] show ?thesis by blast
qed

theorem forwarder_keeps_order_witness:
  \<open>forwarder_at (run single_log_object connected
                   [ReadJSON (subscribe_msg ''logs:X''), AckReturns True, PSubscribe 0]) 0
     = Some (Ranging ''logs:X'')
   \<and> list_all single_log_object [''{"log":"one"}'', ''{"log":"two"}'', ''{"log":"three"}'']
   \<and> sent (run single_log_object
           (run single_log_object connected [ReadJSON (subscribe_msg ''logs:X''), AckReturns True, PSubscribe 0])
           [Receive 0 ''{"log":"one"}'', WriteReturns 0 True,
            Receive 0 ''{"log":"two"}'', WriteReturns 0 True,
            Receive 0 ''{"log":"three"}'', WriteReturns 0 True])
     = [(Handler, Message ''Joined logs:X''),
        (Forwarder 0, Message ''{"log":"one"}''),
        (Forwarder 0, Message ''{"log":"two"}''),
        (Forwarder 0, Message ''{"log":"three"}'')]\<close>
  using forwarder_keeps_order[of 0 single_log_object "[]"
          "run single_log_object connected [ReadJSON (subscribe_msg ''logs:X''), AckReturns True, PSubscribe 0]"
          "''logs:X''" \<open>[''{"log":"one"}'', ''{"log":"two"}'', ''{"log":"three"}'']\<close>]
  by (simp add: subscribe_msg_def connected_def run_Cons run_Nil subscribe_request_def
      begin_write_def forwarder_at_def set_forwarder_def joined_def single_log_object_def)

subsection \<open>Closing a connection\<close>

text \<open>
  Claim C8 says that on every path by which a connection closes every forwarder stops,
  every subscription is released and no further write is attempted. The code has no
  signal from the handler to its forwarders. Amended to what the code does: when
  \<^verbatim>\<open>ReadJSON\<close> fails the handler returns and the connection is closed, with every forwarder
  and every subscription left as it was; the handler takes no further request and no
  frame reaches the viewer any more. A forwarder waiting in its loop stays subscribed
  (a payload that does not unmarshal changes nothing) until either it is handed a payload
  that unmarshals, on which it begins one write on the closed connection, the write
  fails, and it leaves its loop and closes its subscription, or its broker channel is
  closed. The count of open subscriptions is at every moment the number of forwarders
  that have subscribed and not left their loop. What a close does to the process as a
  whole and to other viewers is not part of this statement.
\<close>

theorem closed_connection_forwarders:
  "(handler s = Reading \<longrightarrow>
      conn_closed (step um s ReadError) \<and> handler (step um s ReadError) = Returned \<and>
      forwarders (step um s ReadError) = forwarders s \<and>
      subscriptions (step um s ReadError) = subscriptions s)
   \<and> (handler s = Returned \<longrightarrow> step um s (ReadJSON msg) = s)
   \<and> (conn_closed s \<longrightarrow> sent (run um s evs) = sent s)
   \<and> (conn_closed s \<and> forwarder_at s i = Some (Ranging ch) \<and> um payload \<longrightarrow>
        writes_on_closed (step um s (Receive i payload)) = Suc (writes_on_closed s) \<and>
        forwarder_at (run um s [Receive i payload, WriteReturns i ok]) i = Some (Finished ch) \<and>
        subscriptions (run um s [Receive i payload, WriteReturns i ok]) = subscriptions s - 1)
   \<and> (forwarder_at s i = Some (Ranging ch) \<and> \<not> um payload \<longrightarrow>
        forwarder_at (step um s (Receive i payload)) i = Some (Ranging ch) \<and>
        subscriptions (step um s (Receive i payload)) = subscriptions s)
   \<and> (forwarder_at s i = Some (Ranging ch) \<longrightarrow>
        forwarder_at (step um s (ChannelClosed i)) i = Some (Finished ch) \<and>
        subscriptions (step um s (ChannelClosed i)) = subscriptions s - 1)
   \<and> subscriptions (run um connected evs)
        = length (filter is_subscribed (forwarders (run um connected evs)))"
proof -
  have a: "conn_closed s \<longrightarrow> sent (run um s evs) = sent s"
    using closed_run[of s um evs] by simp
  have b: "writes_on_closed (step um s (Receive i payload)) = Suc (writes_on_closed s) \<and>
        forwarder_at (run um s [Receive i payload, WriteReturns i ok]) i = Some (Finished ch) \<and>
        subscriptions (run um s [Receive i payload, WriteReturns i ok]) = subscriptions s - 1"
    if "conn_closed s" "forwarder_at s i = Some (Ranging ch)" "um payload"
    using that forwarder_at_Some[OF that(2)]
    by (simp add: run_Cons run_Nil forwarder_at_set_forwarder forwarder_at_begin_write
        set_forwarder_fields begin_write_fields begin_write_def)
  have c: "forwarder_at (step um s (Receive i payload)) i = Some (Ranging ch) \<and>
        subscriptions (step um s (Receive i payload)) = subscriptions s"
    if "forwarder_at s i = Some (Ranging ch)" "\<not> um payload"
    using that by (simp add: forwarder_at_def split: if_splits)
  have d: "forwarder_at (step um s (ChannelClosed i)) i = Some (Finished ch) \<and>
        subscriptions (step um s (ChannelClosed i)) = subscriptions s - 1"
    if "forwarder_at s i = Some (Ranging ch)"
    using that forwarder_at_Some[OF that]
    by (simp add: forwarder_at_set_forwarder set_forwarder_fields)
  show ?thesis
    using a b c d subscriptions_run[of um evs]
    by simp
qed

theorem closed_connection_forwarders_witness:
  \<open>conn_closed (run single_log_object connected closed_viewer_run)
   \<and> forwarder_at (run single_log_object connected closed_viewer_run) 0 = Some (Ranging ''logs:A'')
   \<and> single_log_object ''{"log":"Done"}''
   \<and> forwarders (run single_log_object connected
       (closed_viewer_run @ [Receive 0 ''{"log":"Done"}'', WriteReturns 0 True])) = [Finished ''logs:A'']
   \<and> subscriptions (run single_log_object connected
       (closed_viewer_run @ [Receive 0 ''{"log":"Done"}'', WriteReturns 0 True])) = 0
   \<and> sent (run single_log_object connected
       (closed_viewer_run @ [Receive 0 ''{"log":"Done"}'', WriteReturns 0 True]))
      = [(Handler, Message ''Joined logs:A'')]\<close>
  using closed_connection_forwarders[where s = "run single_log_object connected closed_viewer_run"
          and um = single_log_object and i = 0 and ch = "''logs:A''"
          and payload = \<open>''{"log":"Done"}''\<close> and ok = True and evs = "[]"]
  by (simp add: closed_viewer_run_def subscribe_msg_def connected_def run_Cons run_Nil subscribe_request_def
      begin_write_def forwarder_at_def set_forwarder_def joined_def single_log_object_def)

text \<open>
  Against the claim as it is worded: after the read error the connection is closed while
  the forwarder still waits with its subscription open, and the next payload makes it
  begin a write on the closed connection.
\<close>

theorem closed_connection_forwarders_counterexample:
  \<open>conn_closed (run single_log_object connected closed_viewer_run)
   \<and> forwarders (run single_log_object connected closed_viewer_run) = [Ranging ''logs:A'']
   \<and> subscriptions (run single_log_object connected closed_viewer_run) = 1
   \<and> writes_on_closed (run single_log_object connected (closed_viewer_run @ [Receive 0 ''{"log":"Done"}''])) = 1\<close>
  by (simp add: closed_viewer_run_def subscribe_msg_def connected_def run_Cons run_Nil subscribe_request_def
      begin_write_def forwarder_at_def set_forwarder_def joined_def single_log_object_def)

subsection \<open>Writers of one connection\<close>

text \<open>
  Claim C10 says that all writes to one connection are serialized. The handler and every
  forwarder call \<^verbatim>\<open>conn.WriteJSON\<close> themselves, with no lock and no writer goroutine
  between them. Amended to what the code does: only the writes of one goroutine follow
  one another. In every run the writes in progress on a connection are those of the
  goroutines that are inside \<^verbatim>\<open>WriteJSON\<close> at that moment, the handler and any number of
  forwarders, so there is at most one per goroutine: at most one more than the number of
  forwarders started on the connection.
\<close>

theorem writes_in_progress_bound:
  "writing (run um connected evs)
     = acknowledging (run um connected evs)
       + length (filter is_writing (forwarders (run um connected evs)))
   \<and> writing (run um connected evs) \<le> Suc (length (forwarders (run um connected evs)))"
proof -
  have "acknowledging (run um connected evs) \<le> 1"
    by (simp add: acknowledging_def split: handler.split)
  moreover have "length (filter is_writing (forwarders (run um connected evs)))
                 \<le> length (forwarders (run um connected evs))"
    by (rule length_filter_le)
  ultimately show ?thesis using writing_run[of um evs] by linarith
qed

text \<open>
  Against the claim as it is worded: a viewer subscribed to \<^verbatim>\<open>logs:A\<close> and to \<^verbatim>\<open>logs:*\<close>
  has two forwarders; one published event is handed to both, and both are inside
  \<^verbatim>\<open>WriteJSON\<close> on the same connection at once.
\<close>

theorem single_writer_counterexample:
  \<open>writing (run single_log_object connected
       [ReadJSON (subscribe_msg ''logs:A''), AckReturns True, PSubscribe 0,
        ReadJSON (subscribe_msg ''logs:*''), AckReturns True, PSubscribe 1,
        Receive 0 ''{"log":"Done"}'', Receive 1 ''{"log":"Done"}'']) = 2
   \<and> forwarders (run single_log_object connected
       [ReadJSON (subscribe_msg ''logs:A''), AckReturns True, PSubscribe 0,
        ReadJSON (subscribe_msg ''logs:*''), AckReturns True, PSubscribe 1,
        Receive 0 ''{"log":"Done"}'', Receive 1 ''{"log":"Done"}''])
     = [Writing ''logs:A'' ''{"log":"Done"}'', Writing ''logs:*'' ''{"log":"Done"}'']\<close>
  by (simp add: subscribe_msg_def connected_def run_Cons run_Nil subscribe_request_def
      begin_write_def forwarder_at_def set_forwarder_def joined_def single_log_object_def)

end
